theory Spec2Isabelle
  imports Main "HOL-Library.Sublist"
begin

section \<open>The rename dialog: text fields and plugin state\<close>

text \<open>
  The plugin keeps its state in the rendered list of \<open>md-filled-text-field\<close> elements and
  in three properties of the component. One text field carries the proposed name
  (\<open>value\<close>), the attribute \<open>data-old-name\<close> (equal to the \<open>oldName\<close> its input handler
  closes over), the message last passed to \<open>setCustomValidity\<close> and the CSS class
  \<open>changed\<close>. The platform keeps one more fact with the element, on which its
  \<open>validity\<close> depends: whether the value was last changed by an edit of the user
  (\<open>user_edited\<close>) or was put there by the template or by a script. Strings are HOL
  strings: a HOL character stands for one code unit below 256 of the JavaScript string,
  which covers the ASCII names the rules admit.
\<close>

record text_field =
  field_value :: string
  user_edited :: bool
  data_old_name :: string
  custom_validity :: string
  changed :: bool

text \<open>
  \<open>doc\<close> holds the names of the \<open>IED\<close> elements under the document root, \<open>None\<close> while no
  document is loaded (then \<open>render\<close> produces nothing and \<open>iedListUI\<close> is absent).
  \<open>ied_fields\<close> is \<open>iedListUI.querySelectorAll('md-filled-text-field')\<close>, in list order.
\<close>

record plugin =
  doc :: "string list option"
  ied_fields :: "text_field list"
  iedsToRename :: "string list"
  allIedNamesValid :: bool
  dialog_open :: bool

datatype error = TypeError | SyntaxError | NoSuchField

subsection \<open>Constraint validation of one text field\<close>

text \<open>
  \<open>renderIedItem\<close> declares every field with \<open>required\<close>, \<open>minLength="1"\<close>,
  \<open>maxLength="64"\<close> and \<open>pattern="[A-Za-z][0-9A-Za-z_]*"\<close>. The flags of the element's
  \<open>validity\<close>, which \<open>customCheckValidity\<close> reads, are what the platform computes from
  these attributes and the element: \<open>valueMissing\<close> for an empty value and
  \<open>patternMismatch\<close> for a non-empty value that the pattern does not match as a whole,
  however the value came into the field; \<open>tooLong\<close> and \<open>tooShort\<close> only for a value that
  was last changed by an edit of the user, when it has more than \<open>maxLength\<close> code units,
  or is not empty and has fewer than \<open>minLength\<close>. A value that the template or a script
  put into the field suffers from neither, whatever its length.
\<close>

definition minLength :: nat where
  "minLength = 1"

definition maxLength :: nat where
  "maxLength = 64"

definition is_letter :: "char \<Rightarrow> bool" where
  "is_letter c =
     (let n = (of_char c :: nat) in (65 \<le> n \<and> n \<le> 90) \<or> (97 \<le> n \<and> n \<le> 122))"

definition is_digit :: "char \<Rightarrow> bool" where
  "is_digit c = (let n = (of_char c :: nat) in 48 \<le> n \<and> n \<le> 57)"

definition is_name_char :: "char \<Rightarrow> bool" where
  "is_name_char c = (is_digit c \<or> is_letter c \<or> c = CHR ''_'')"

text \<open>The whole value against \<open>[A-Za-z][0-9A-Za-z_]*\<close>.\<close>

fun pattern_matches :: "string \<Rightarrow> bool" where
  "pattern_matches [] = False"
| "pattern_matches (c # cs) = (is_letter c \<and> list_all is_name_char cs)"

definition valueMissing :: "string \<Rightarrow> bool" where
  "valueMissing v = (v = [])"

definition patternMismatch :: "string \<Rightarrow> bool" where
  "patternMismatch v = (v \<noteq> [] \<and> \<not> pattern_matches v)"

definition tooLong :: "text_field \<Rightarrow> bool" where
  "tooLong e = (user_edited e \<and> maxLength < length (field_value e))"

definition tooShort :: "text_field \<Rightarrow> bool" where
  "tooShort e =
     (user_edited e \<and> field_value e \<noteq> [] \<and> length (field_value e) < minLength)"

subsection \<open>The messages of \<open>customCheckValidity\<close>\<close>

definition msg_missing :: string where
  "msg_missing = ''You must fill in this field.''"

definition msg_pattern :: string where
  "msg_pattern = ''Please use A-Z,0-9 and _ and start with a letter.''"

definition msg_length :: string where
  "msg_length = ''IED name must be > 1 character and < 64 characters.''"

definition msg_unique :: string where
  "msg_unique = ''IED name must be unique.''"

subsection \<open>\<open>duplicatedIedName\<close> and \<open>customCheckValidity\<close>\<close>

definition duplicatedIedName :: "plugin \<Rightarrow> string \<Rightarrow> bool" where
  "duplicatedIedName s iedName =
     (if doc s = None then False
      else
        (let newNames = map field_value (ied_fields s);
             iedNames = filter (\<lambda>name. name = iedName) newNames
         in length iedNames \<noteq> 1))"

text \<open>
  The message \<open>customCheckValidity\<close> sets on an element, by the order of its \<open>if\<close> chain;
  the empty message is the valid case.
\<close>

definition validity_message :: "plugin \<Rightarrow> text_field \<Rightarrow> string" where
  "validity_message s iedElement =
     (if valueMissing (field_value iedElement) then msg_missing
      else if patternMismatch (field_value iedElement) then msg_pattern
      else if tooLong iedElement \<or> tooShort iedElement then msg_length
      else if duplicatedIedName s (field_value iedElement) then msg_unique
      else [])"

text \<open>
  \<open>customCheckValidity\<close> on the \<open>i\<close>-th field: it stores the message in the element and
  returns whether the last branch was taken. Without such an element it returns \<open>false\<close>.
\<close>

definition customCheckValidity :: "nat \<Rightarrow> plugin \<Rightarrow> plugin \<times> bool" where
  "customCheckValidity i s =
     (if \<not> i < length (ied_fields s) then (s, False)
      else
        (let e = ied_fields s ! i;
             v = field_value e
         in if valueMissing v then
              (s\<lparr>ied_fields := (ied_fields s)[i := e\<lparr>custom_validity := msg_missing\<rparr>]\<rparr>, False)
            else if patternMismatch v then
              (s\<lparr>ied_fields := (ied_fields s)[i := e\<lparr>custom_validity := msg_pattern\<rparr>]\<rparr>, False)
            else if tooLong e \<or> tooShort e then
              (s\<lparr>ied_fields := (ied_fields s)[i := e\<lparr>custom_validity := msg_length\<rparr>]\<rparr>, False)
            else if duplicatedIedName s v then
              (s\<lparr>ied_fields := (ied_fields s)[i := e\<lparr>custom_validity := msg_unique\<rparr>]\<rparr>, False)
            else
              (s\<lparr>ied_fields := (ied_fields s)[i := e\<lparr>custom_validity := []\<rparr>]\<rparr>, True)))"

subsection \<open>The \<open>@input\<close> handler of a text field\<close>

text \<open>
  \<open>Array.from(fields).map(listIed => this.customCheckValidity(listIed))\<close>: the fields are
  checked from the first to the last, each check working on the state the previous one
  left.
\<close>

fun check_from :: "nat \<Rightarrow> nat \<Rightarrow> plugin \<Rightarrow> plugin \<times> bool list" where
  "check_from i 0 s = (s, [])"
| "check_from i (Suc k) s =
     (let (s1, b) = customCheckValidity i s;
          (s2, bs) = check_from (Suc i) k s1
      in (s2, b # bs))"

definition check_all :: "plugin \<Rightarrow> plugin \<times> bool list" where
  "check_all s = check_from 0 (length (ied_fields s)) s"

text \<open>
  \<open>.reduce((acc, current) => acc && current)\<close> has no initial value: on an empty array it
  throws a \<open>TypeError\<close>, otherwise it starts from the first element.
\<close>

definition reduce_and :: "bool list \<Rightarrow> error + bool" where
  "reduce_and bs = (case bs of [] \<Rightarrow> Inl TypeError | b # bs' \<Rightarrow> Inr (foldl (\<and>) b bs'))"

text \<open>
  The handler runs on the field the event targets (\<open>i\<close>), after the new value has been
  stored in it.
\<close>

definition input_handler :: "nat \<Rightarrow> plugin \<Rightarrow> error + plugin" where
  "input_handler i s =
     (if \<not> i < length (ied_fields s) then Inl NoSuchField
      else
        (let oldName = data_old_name (ied_fields s ! i);
             (s1, _) = customCheckValidity i s;
             (s2, bs) = check_all s1
         in case reduce_and bs of
              Inl e \<Rightarrow> Inl e
            | Inr b \<Rightarrow>
                (let s3 = s2\<lparr>allIedNamesValid := b\<rparr>;
                     iedElement = ied_fields s3 ! i
                 in if field_value iedElement \<noteq> oldName then
                      Inr (s3\<lparr>iedsToRename :=
                                (if oldName \<in> set (iedsToRename s3) then iedsToRename s3
                                 else iedsToRename s3 @ [oldName]),
                              ied_fields := (ied_fields s3)[i := iedElement\<lparr>changed := True\<rparr>]\<rparr>)
                    else
                      Inr (s3\<lparr>iedsToRename :=
                                filter (\<lambda>item. item \<noteq> oldName) (iedsToRename s3),
                              ied_fields := (ied_fields s3)[i := iedElement\<lparr>changed := False\<rparr>]\<rparr>))))"

text \<open>
  The \<open>i\<close>-th field receives the value \<open>v\<close> and fires \<open>input\<close>. The value comes either from
  an edit of the user (\<open>by_user\<close>) or from a script that assigns \<open>value\<close> and dispatches
  the event itself; the platform notes which.
\<close>

definition set_field_value :: "bool \<Rightarrow> nat \<Rightarrow> string \<Rightarrow> plugin \<Rightarrow> plugin" where
  "set_field_value by_user i v s =
     s\<lparr>ied_fields :=
         (ied_fields s)[i := (ied_fields s ! i)\<lparr>field_value := v, user_edited := by_user\<rparr>]\<rparr>"

definition value_event :: "bool \<Rightarrow> nat \<Rightarrow> string \<Rightarrow> plugin \<Rightarrow> error + plugin" where
  "value_event by_user i v s =
     (if \<not> i < length (ied_fields s) then Inl NoSuchField
      else input_handler i (set_field_value by_user i v s))"

text \<open>
  One edit of the operator: the user leaves the text \<open>v\<close> in the \<open>i\<close>-th field. The
  platform does not let the user type or paste beyond \<open>maxLength\<close>: an edit can leave more
  than 64 characters only in a field that held more than 64 before, as when the user
  takes characters away from a name that is longer still.
\<close>

definition input_event :: "nat \<Rightarrow> string \<Rightarrow> plugin \<Rightarrow> error + plugin" where
  "input_event i v s = value_event True i v s"

text \<open>A script sets the value of the \<open>i\<close>-th field to \<open>v\<close> and dispatches \<open>input\<close> on it.\<close>

definition script_event :: "nat \<Rightarrow> string \<Rightarrow> plugin \<Rightarrow> error + plugin" where
  "script_event i v s = value_event False i v s"

subsection \<open>Rendering and \<open>run\<close>\<close>

text \<open>
  The template gives the field its value (\<open>value="${oldName}"\<close>), and \<open>run\<close> assigns
  \<open>listIed.value\<close>: neither is an edit of the user.
\<close>

definition renderIedItem :: "string \<Rightarrow> text_field" where
  "renderIedItem oldName =
     \<lparr>field_value = oldName, user_edited = False, data_old_name = oldName,
      custom_validity = [], changed = False\<rparr>"

text \<open>The component once a document with the given \<open>IED\<close> names is rendered, the dialog closed.\<close>

definition rendered :: "string list \<Rightarrow> plugin" where
  "rendered names =
     \<lparr>doc = Some names, ied_fields = map renderIedItem names, iedsToRename = [],
      allIedNamesValid = True, dialog_open = False\<rparr>"

definition reset_field :: "text_field \<Rightarrow> text_field" where
  "reset_field listIed =
     listIed\<lparr>field_value := data_old_name listIed, user_edited := False,
       custom_validity := [], changed := False\<rparr>"

definition run :: "plugin \<Rightarrow> plugin" where
  "run s =
     s\<lparr>ied_fields := map reset_field (ied_fields s), iedsToRename := [],
       allIedNamesValid := True, dialog_open := True\<rparr>"

subsection \<open>The \<open>Rename IEDs\<close> button\<close>

definition rename_disabled :: "plugin \<Rightarrow> bool" where
  "rename_disabled s = (length (iedsToRename s) = 0 \<or> \<not> allIedNamesValid s)"

text \<open>
  The click handler walks over every \<open>.item\<close> of the list and looks the device up with
  \<open>this.doc.querySelector(`:root > IED[name="${oldIedName}"]`)\<close>: the old name is pasted
  between double quotes into the text of a CSS selector.
\<close>

definition ied_selector :: "string \<Rightarrow> string" where
  "ied_selector oldIedName = '':root > IED[name='' @ [CHR 0x22] @ oldIedName @ [CHR 0x22] @ '']''"

text \<open>
  Between the quotes the selector's string is the name itself as long as the name holds
  no double quote (which would end the string), no backslash (which starts an escape), no
  line feed, form feed or carriage return (which a string cannot contain) and no NUL
  (which the parser replaces).
\<close>

definition selector_safe :: "string \<Rightarrow> bool" where
  "selector_safe oldIedName =
     list_all (\<lambda>c. c \<notin> {CHR 0x22, CHR 0x5C, CHR 0x0A, CHR 0x0C, CHR 0x0D, CHR 0x00}) oldIedName"

text \<open>
  For such a name the selector finds an element exactly when the document has an \<open>IED\<close>
  whose \<open>name\<close> is that string. For any other name the outcome is what the platform makes
  of the selector's text: an exception where the text is no selector, as for a name with
  a double quote in it, or the search for another name, as for a name with a backslash.
  \<open>querySelector\<close> is the platform's answer to such a text, an exception or whether an
  element was found.
\<close>

definition find_ied ::
  "(string \<Rightarrow> error + bool) \<Rightarrow> string list \<Rightarrow> string \<Rightarrow> error + bool" where
  "find_ied querySelector names oldIedName =
     (if selector_safe oldIedName then Inr (oldIedName \<in> set names)
      else querySelector (ied_selector oldIedName))"

text \<open>
  For every element found the handler dispatches
  \<open>updateIED({element: ied, attributes: {name: newIedName}})\<close>. An edit is recorded as the
  pair of the name looked up and the new name; applying it is the host's part. An
  exception ends the walk: the edits of the items before it are dispatched already, those
  of the items after it never are.
\<close>

fun dispatch_items ::
  "(string \<Rightarrow> error + bool) \<Rightarrow> string list \<Rightarrow> text_field list
     \<Rightarrow> (string \<times> string) list \<times> error option" where
  "dispatch_items querySelector names [] = ([], None)"
| "dispatch_items querySelector names (textField # items) =
     (let newIedName = field_value textField;
          oldIedName = data_old_name textField
      in case find_ied querySelector names oldIedName of
           Inl e \<Rightarrow> ([], Some e)
         | Inr ied \<Rightarrow>
             (let (cmds, r) = dispatch_items querySelector names items
              in ((if ied then [(oldIedName, newIedName)] else []) @ cmds, r)))"

text \<open>
  The whole handler: the edits it dispatched, and either the exception that ended it or
  the state with the dialog closed. Without a document nothing is rendered and
  \<open>Array.from(undefined)\<close> throws.
\<close>

definition rename_click_handler ::
  "(string \<Rightarrow> error + bool) \<Rightarrow> plugin \<Rightarrow> (string \<times> string) list \<times> (error + plugin)" where
  "rename_click_handler querySelector s =
     (case doc s of
        None \<Rightarrow> ([], Inl TypeError)
      | Some names \<Rightarrow>
          (let (cmds, r) = dispatch_items querySelector names (ied_fields s)
           in (cmds, case r of Some e \<Rightarrow> Inl e | None \<Rightarrow> Inr (s\<lparr>dialog_open := False\<rparr>))))"

text \<open>A disabled button delivers no click; the state stays as it is and nothing is dispatched.\<close>

definition rename_click ::
  "(string \<Rightarrow> error + bool) \<Rightarrow> plugin \<Rightarrow> (string \<times> string) list \<times> (error + plugin)" where
  "rename_click querySelector s =
     (if rename_disabled s then ([], Inr s) else rename_click_handler querySelector s)"

subsection \<open>A sequence of edits\<close>

text \<open>
  The operator's edits one after the other, each given by the position of the field and
  the text typed into it.
\<close>

fun edits :: "(nat \<times> string) list \<Rightarrow> plugin \<Rightarrow> error + plugin" where
  "edits [] s = Inr s"
| "edits ((i, v) # es) s = (case input_event i v s of Inl e \<Rightarrow> Inl e | Inr s' \<Rightarrow> edits es s')"

section \<open>The search box\<close>

text \<open>
  \<open>getSearchRegex\<close> turns the text of the search box into a regular expression with the
  \<open>i\<close> flag. A string is a HOL string whose characters stand for the code units below
  256 of the JavaScript string.
\<close>

subsection \<open>Characters\<close>

abbreviation backslash :: char where
  "backslash \<equiv> CHR 0x5C"

abbreviation dquote :: char where
  "dquote \<equiv> CHR 0x22"

abbreviation squote :: char where
  "squote \<equiv> CHR 0x27"

text \<open>
  White space as \<open>trim\<close> and the class \<open>\s\<close> see it (tab, line feed, vertical tab, form
  feed, carriage return, space, no-break space), the line terminators that \<open>.\<close> does
  not match, the two quotes, and the characters of the class \<open>[.+^${}()|[\]\\]\<close> that
  the first \<open>replace\<close> escapes.
\<close>

definition is_space :: "char \<Rightarrow> bool" where
  "is_space c = (let n = (of_char c :: nat) in (9 \<le> n \<and> n \<le> 13) \<or> n = 32 \<or> n = 160)"

definition line_terminator :: "char \<Rightarrow> bool" where
  "line_terminator c = (c = CHR 0x0A \<or> c = CHR 0x0D)"

definition is_quote :: "char \<Rightarrow> bool" where
  "is_quote c = (c = dquote \<or> c = squote)"

definition is_meta :: "char \<Rightarrow> bool" where
  "is_meta c = (c \<in> set ''.+^${}()|[]'' \<or> c = backslash)"

text \<open>
  Under the \<open>i\<close> flag the engine compares characters after \<open>Canonicalize\<close>, which maps
  a character to its upper case: for the code units below 256 these are the letters
  \<open>a\<close> to \<open>z\<close> and the accented letters from 224 to 254 without the division sign, each
  32 above its capital (so the capital is the character with the bit of value 32 cleared).
\<close>

definition canonicalize :: "char \<Rightarrow> char" where
  "canonicalize c =
     (let n = (of_char c :: nat)
      in if (97 \<le> n \<and> n \<le> 122) \<or> (224 \<le> n \<and> n \<le> 254 \<and> n \<noteq> 247)
         then (case c of Char b0 b1 b2 b3 b4 b5 b6 b7 \<Rightarrow> Char b0 b1 b2 b3 b4 False b6 b7)
         else c)"

subsection \<open>The string operations of \<open>getSearchRegex\<close>\<close>

text \<open>
  \<open>.replace(/[.+^${}()|[\]\\]/g, '\\$&')\<close> puts a backslash before every character of the
  class; \<open>.trim()\<close> removes white space at both ends; a \<open>replace\<close> of a single character
  with the \<open>g\<close> flag rewrites every occurrence.
\<close>

definition escape_meta :: "string \<Rightarrow> string" where
  "escape_meta s = concat (map (\<lambda>c. if is_meta c then [backslash, c] else [c]) s)"

definition trim :: "string \<Rightarrow> string" where
  "trim s = rev (dropWhile is_space (rev (dropWhile is_space s)))"

definition replace_char :: "char \<Rightarrow> string \<Rightarrow> string \<Rightarrow> string" where
  "replace_char c r s = concat (map (\<lambda>x. if x = c then r else [x]) s)"

text \<open>
  \<open>.match(/(?:[^\s"']+|['"][^'"]*["'])+/g)\<close> lists the matches from left to right. One
  round of the group is either a longest run of characters that are neither white space
  nor quotes, or a quote, the characters up to the next quote, and that quote (either
  kind of quote opens and closes); without a closing quote the second alternative
  fails, since no shorter run ends at a quote. The group repeats as long as a round
  succeeds, and a match needs one round. Where no match starts the scan moves on by one
  character; a match is never empty, so the scan resumes at its end.
\<close>

definition is_term_char :: "char \<Rightarrow> bool" where
  "is_term_char c = (\<not> is_space c \<and> \<not> is_quote c)"

definition group_step :: "string \<Rightarrow> (string \<times> string) option" where
  "group_step s =
     (case s of
        [] \<Rightarrow> None
      | c # r \<Rightarrow>
          if is_term_char c then Some (takeWhile is_term_char s, dropWhile is_term_char s)
          else if is_quote c then
            (case dropWhile (\<lambda>x. \<not> is_quote x) r of
               [] \<Rightarrow> None
             | q # r' \<Rightarrow> Some (c # takeWhile (\<lambda>x. \<not> is_quote x) r @ [q], r'))
          else None)"

lemma group_step_shorter:
  assumes "group_step s = Some (t, r)"
  shows "length r < length s"
proof (cases s)
  case Nil
  then show ?thesis using assms by (simp add: group_step_def)
next
  case (Cons c r0)
  show ?thesis
  proof (cases "is_term_char c")
    case True
    then have "r = dropWhile is_term_char r0" using assms Cons by (simp add: group_step_def)
    then show ?thesis using Cons by (simp add: length_dropWhile_le le_imp_less_Suc)
  next
    case False
    then obtain q where "dropWhile (\<lambda>x. \<not> is_quote x) r0 = q # r"
      using assms Cons by (auto simp: group_step_def split: if_splits list.splits)
    then have "length (q # r) \<le> length r0" by (metis length_dropWhile_le)
    then show ?thesis using Cons by simp
  qed
qed

function group_star :: "string \<Rightarrow> string \<times> string" where
  "group_star s =
     (case group_step s of
        None \<Rightarrow> ([], s)
      | Some (t, r) \<Rightarrow> (let (t', r') = group_star r in (t @ t', r')))"
  by pat_completeness auto
termination
  by (relation "measure length") (auto dest: group_step_shorter)

declare group_star.simps [simp del]

definition group_plus :: "string \<Rightarrow> (string \<times> string) option" where
  "group_plus s =
     (case group_step s of
        None \<Rightarrow> None
      | Some (t, r) \<Rightarrow> (let (t', r') = group_star r in Some (t @ t', r')))"

lemma group_star_shorter: "group_star s = (t, r) \<Longrightarrow> length r \<le> length s"
proof (induction s arbitrary: t r rule: group_star.induct)
  case (1 s)
  show ?case
  proof (cases "group_step s")
    case None
    then show ?thesis using "1.prems" by (simp add: group_star.simps[of s])
  next
    case (Some p)
    obtain t1 r1 where p: "p = (t1, r1)" by (cases p)
    obtain t2 r2 where g: "group_star r1 = (t2, r2)" by (cases "group_star r1")
    have "length r2 \<le> length r1" using "1.IH"[OF Some p[symmetric] g] .
    moreover have "length r1 < length s" using Some p by (auto dest: group_step_shorter)
    moreover have "r = r2" using "1.prems" Some p g by (simp add: group_star.simps[of s])
    ultimately show ?thesis by simp
  qed
qed

lemma group_plus_shorter:
  assumes "group_plus s = Some (t, r)"
  shows "length r < length s"
proof -
  obtain t1 r1 where a: "group_step s = Some (t1, r1)"
    using assms by (auto simp: group_plus_def split: option.splits)
  obtain t2 r2 where b: "group_star r1 = (t2, r2)" by (cases "group_star r1")
  have "r = r2" using assms a b by (simp add: group_plus_def)
  then show ?thesis using group_step_shorter[OF a] group_star_shorter[OF b] by simp
qed

function match_all :: "string \<Rightarrow> string list" where
  "match_all [] = []"
| "match_all (c # r) =
     (case group_plus (c # r) of
        None \<Rightarrow> match_all r
      | Some (t, rest) \<Rightarrow> t # match_all rest)"
  by pat_completeness auto
termination
  by (relation "measure length") (auto dest: group_plus_shorter)

declare match_all.simps [simp del]

text \<open>
  Each term has \<open>*\<close> replaced by \<open>.*\<close>, then \<open>?\<close> by \<open>.{1}\<close>, then its quotes removed; it
  is wrapped as the lookahead \<open>(?=.*term)\<close>, the lookaheads are joined and \<open>.*\<close> is
  appended. \<open>match\<close> gives \<open>null\<close> when nothing matches, which \<open>?? []\<close> turns into no
  terms.
\<close>

definition expand_term :: "string \<Rightarrow> string" where
  "expand_term term' =
     filter (\<lambda>c. \<not> is_quote c)
       (replace_char CHR ''?'' ''.{1}'' (replace_char CHR ''*'' ''.*'' term'))"

record regexp =
  source :: string
  ignoreCase :: bool

definition getSearchRegex :: "string \<Rightarrow> regexp" where
  "getSearchRegex searchExpression =
     (if searchExpression = [] then \<lparr>source = ''.*'', ignoreCase = True\<rparr>
      else
        (let terms = match_all (trim (escape_meta searchExpression));
             expandedTerms = map expand_term terms;
             regexString = map (\<lambda>term'. ''(?=.*'' @ term' @ '')'') expandedTerms
         in \<lparr>source = concat regexString @ ''.*'', ignoreCase = True\<rparr>))"

subsection \<open>The regular expressions that \<open>getSearchRegex\<close> builds\<close>

text \<open>
  \<open>new RegExp(source, 'i')\<close> and \<open>test\<close> belong to the platform. They are modelled for
  the patterns that can occur here: a sequence of lookaheads \<open>(?=...)\<close> and atoms, an
  atom being an escaped syntax character, a literal character, \<open>.\<close>, \<open>.{1}\<close> or \<open>.*\<close>.
  Any other pattern syntax makes the parser return \<open>None\<close>.
\<close>

datatype atom = Chr char | Dot | DotStar

datatype item = Lookahead "atom list" | Plain atom

definition is_syntax_char :: "char \<Rightarrow> bool" where
  "is_syntax_char c = (c \<in> set ''^$.*+?()[]{}|'' \<or> c = backslash)"

definition parse_atom :: "string \<Rightarrow> (atom \<times> string) option" where
  "parse_atom s =
     (case s of
        [] \<Rightarrow> None
      | c # r \<Rightarrow>
          if c = backslash then
            (case r of
               [] \<Rightarrow> None
             | d # r' \<Rightarrow>
                 if is_syntax_char d \<or> d = CHR ''/'' then Some (Chr d, r') else None)
          else if c = CHR ''.'' then
            (case r of
               [] \<Rightarrow> Some (Dot, [])
             | d # r' \<Rightarrow>
                 if d = CHR ''*'' then Some (DotStar, r')
                 else if d = CHR ''{'' then
                   (case r' of
                      a # b # r'' \<Rightarrow> if a = CHR ''1'' \<and> b = CHR ''}'' then Some (Dot, r'') else None
                    | _ \<Rightarrow> None)
                 else Some (Dot, r))
          else if is_syntax_char c then None
          else Some (Chr c, r))"

lemma parse_atom_shorter:
  assumes "parse_atom s = Some (a, r)"
  shows "length r < length s"
  using assms
  by (auto simp: parse_atom_def split: list.splits if_splits)

function parse_atoms :: "string \<Rightarrow> (atom list \<times> string) option" where
  "parse_atoms s =
     (case s of
        [] \<Rightarrow> Some ([], [])
      | c # _ \<Rightarrow>
          if c = CHR '')'' then Some ([], s)
          else
            (case parse_atom s of
               None \<Rightarrow> None
             | Some (a, r) \<Rightarrow>
                 (case parse_atoms r of
                    None \<Rightarrow> None
                  | Some (as, r') \<Rightarrow> Some (a # as, r'))))"
  by pat_completeness auto
termination
  by (relation "measure length") (auto dest: parse_atom_shorter)

declare parse_atoms.simps [simp del]

lemma parse_atoms_shorter: "parse_atoms s = Some (as, r) \<Longrightarrow> length r \<le> length s"
proof (induction s arbitrary: as r rule: parse_atoms.induct)
  case (1 s)
  show ?case
  proof (cases s)
    case Nil
    then show ?thesis using "1.prems" by (subst (asm) parse_atoms.simps) simp
  next
    case (Cons c s')
    show ?thesis
    proof (cases "c = CHR '')''")
      case True
      then show ?thesis using "1.prems" by (subst (asm) parse_atoms.simps) (simp add: Cons)
    next
      case False
      obtain a r1 where pa: "parse_atom s = Some (a, r1)"
        using "1.prems" False
        by (subst (asm) parse_atoms.simps) (auto simp: Cons split: option.splits)
      obtain as1 r2 where ps: "parse_atoms r1 = Some (as1, r2)"
        using "1.prems" False pa
        by (subst (asm) parse_atoms.simps) (auto simp: Cons split: option.splits)
      have "length r2 \<le> length r1"
        using "1.IH"[OF Cons False pa refl ps] .
      moreover have "r = r2"
        using "1.prems" False pa ps by (subst (asm) parse_atoms.simps) (simp add: Cons)
      ultimately show ?thesis using parse_atom_shorter[OF pa] by simp
    qed
  qed
qed

function parse_items :: "string \<Rightarrow> item list option" where
  "parse_items s =
     (if s = [] then Some []
      else if take 3 s = ''(?='' then
        (case parse_atoms (drop 3 s) of
           None \<Rightarrow> None
         | Some (as, r) \<Rightarrow>
             (case r of
                [] \<Rightarrow> None
              | c # r' \<Rightarrow>
                  if c \<noteq> CHR '')'' then None
                  else
                    (case parse_items r' of
                       None \<Rightarrow> None
                     | Some items \<Rightarrow> Some (Lookahead as # items))))
      else
        (case parse_atom s of
           None \<Rightarrow> None
         | Some (a, r) \<Rightarrow>
             (case parse_items r of
                None \<Rightarrow> None
              | Some items \<Rightarrow> Some (Plain a # items))))"
  by pat_completeness auto
termination
proof (relation "measure length", goal_cases)
  case 1
  then show ?case by simp
next
  case (2 s x2 as r c r')
  then have "parse_atoms (drop 3 s) = Some (as, c # r')" by simp
  then have "length (c # r') \<le> length (drop 3 s)" by (rule parse_atoms_shorter)
  then show ?case by simp
next
  case (3 s x2 a r)
  then show ?case by (auto dest: parse_atom_shorter)
qed

declare parse_items.simps [simp del]

text \<open>
  Matching at a position: does the sequence match some prefix of the rest of the
  string? A literal matches a character with the same canonical form, \<open>.\<close> any character
  but a line terminator, \<open>.*\<close> any run of such characters (every length is tried, as the
  backtracking of the engine does), and a lookahead matches where its body matches,
  consuming nothing. \<open>test\<close> tries every start position from the first on.
\<close>

fun match_atoms :: "(char \<Rightarrow> char) \<Rightarrow> atom list \<Rightarrow> string \<Rightarrow> bool" where
  "match_atoms f [] s = True"
| "match_atoms f (Chr c # as) [] = False"
| "match_atoms f (Chr c # as) (x # xs) = (f x = f c \<and> match_atoms f as xs)"
| "match_atoms f (Dot # as) [] = False"
| "match_atoms f (Dot # as) (x # xs) = (\<not> line_terminator x \<and> match_atoms f as xs)"
| "match_atoms f (DotStar # as) [] = match_atoms f as []"
| "match_atoms f (DotStar # as) (x # xs) =
     ((\<not> line_terminator x \<and> match_atoms f (DotStar # as) xs) \<or> match_atoms f as (x # xs))"

fun match_items :: "(char \<Rightarrow> char) \<Rightarrow> item list \<Rightarrow> string \<Rightarrow> bool" where
  "match_items f [] s = True"
| "match_items f (Lookahead as # is) s = (match_atoms f as s \<and> match_items f is s)"
| "match_items f (Plain (Chr c) # is) [] = False"
| "match_items f (Plain (Chr c) # is) (x # xs) = (f x = f c \<and> match_items f is xs)"
| "match_items f (Plain Dot # is) [] = False"
| "match_items f (Plain Dot # is) (x # xs) = (\<not> line_terminator x \<and> match_items f is xs)"
| "match_items f (Plain DotStar # is) [] = match_items f is []"
| "match_items f (Plain DotStar # is) (x # xs) =
     ((\<not> line_terminator x \<and> match_items f (Plain DotStar # is) xs) \<or> match_items f is (x # xs))"

fun search_from :: "(char \<Rightarrow> char) \<Rightarrow> item list \<Rightarrow> string \<Rightarrow> bool" where
  "search_from f is [] = match_items f is []"
| "search_from f is (x # xs) = (match_items f is (x # xs) \<or> search_from f is xs)"

definition regexp_test :: "regexp \<Rightarrow> string \<Rightarrow> bool option" where
  "regexp_test re s =
     (case parse_items (source re) of
        None \<Rightarrow> None
      | Some items \<Rightarrow>
          Some (search_from (if ignoreCase re then canonicalize else (\<lambda>c. c)) items s))"

section \<open>Notions of the statements and closed forms of the proofs\<close>

text \<open>
  What one run of \<open>customCheckValidity\<close> leaves in an element, the state in which the
  \<open>i\<close>-th element carries a given message, what the handler does to \<open>iedsToRename\<close>, and
  the state the whole \<open>@input\<close> handler produces; the lemmas below show that the handler
  computes exactly these.
\<close>

definition set_message :: "plugin \<Rightarrow> text_field \<Rightarrow> text_field" where
  "set_message s e = e\<lparr>custom_validity := validity_message s e\<rparr>"


definition renames_after :: "string \<Rightarrow> string \<Rightarrow> string list \<Rightarrow> string list" where
  "renames_after v oldName r =
     (if v \<noteq> oldName then (if oldName \<in> set r then r else r @ [oldName])
      else filter (\<lambda>item. item \<noteq> oldName) r)"

definition handled :: "nat \<Rightarrow> plugin \<Rightarrow> plugin" where
  "handled i s =
     s\<lparr>ied_fields :=
         (map (set_message s) (ied_fields s))
           [i := (set_message s (ied_fields s ! i))
                   \<lparr>changed := (field_value (ied_fields s ! i) \<noteq> data_old_name (ied_fields s ! i))\<rparr>],
       allIedNamesValid := list_all (\<lambda>e. validity_message s e = []) (ied_fields s),
       iedsToRename :=
         renames_after (field_value (ied_fields s ! i)) (data_old_name (ied_fields s ! i))
           (iedsToRename s)\<rparr>"

text \<open>
  The identities with a pending rename, read off the fields, and the invariant that ties
  \<open>iedsToRename\<close> to them in a session that was opened on a document with distinct names.
\<close>

definition pending :: "plugin \<Rightarrow> string set" where
  "pending s =
     {data_old_name e | e. e \<in> set (ied_fields s) \<and> field_value e \<noteq> data_old_name e}"

definition tracked :: "string list \<Rightarrow> plugin \<Rightarrow> bool" where
  "tracked names s \<longleftrightarrow>
     doc s = Some names \<and> map data_old_name (ied_fields s) = names \<and> distinct names
     \<and> set (iedsToRename s) = pending s \<and> distinct (iedsToRename s)"

text \<open>
  Every field passes the rules in the present state, and the invariant that
  \<open>allIedNamesValid\<close> says so once a rename is pending (it is set to \<open>true\<close> unchecked when
  the dialog opens).
\<close>

definition all_fields_valid :: "plugin \<Rightarrow> bool" where
  "all_fields_valid s =
     list_all (\<lambda>e. validity_message s e = []) (ied_fields s)"

definition validated :: "plugin \<Rightarrow> bool" where
  "validated s \<longleftrightarrow> (iedsToRename s \<noteq> [] \<longrightarrow> allIedNamesValid s = all_fields_valid s)"

text \<open>Two names differ only in the case of their letters.\<close>

definition differ_only_in_case :: "string \<Rightarrow> string \<Rightarrow> bool" where
  "differ_only_in_case a b = (a \<noteq> b \<and> map canonicalize a = map canonicalize b)"

text \<open>
  The sessions of the examples, the dialog just opened: two devices; two devices whose
  names differ in case only; three devices. Then the states that the examples reach: the
  two devices after \<open>IED2\<close> was typed into the first field, and after \<open>IED1\<close> was typed
  back; the three devices after the first was renamed, and after the second was as well.
\<close>

definition two_ieds :: plugin where
  "two_ieds = run (rendered [''IED1'', ''IED2''])"

definition case_variants :: plugin where
  "case_variants = run (rendered [''IED1'', ''ied1''])"

definition three_ieds :: plugin where
  "three_ieds = run (rendered [''IED1'', ''IED2'', ''IED3''])"

text \<open>
  A document whose first device has a name of seventy letters, longer than the field's
  \<open>maxLength\<close>: the one kind of session in which an edit of the user can leave more than
  64 characters, by taking characters away.
\<close>

definition long_ieds :: plugin where
  "long_ieds = run (rendered [replicate 70 CHR ''A'', ''IED2''])"

definition both_IED2 :: plugin where
  "both_IED2 =
     \<lparr>doc = Some [''IED1'', ''IED2''],
      ied_fields =
        [\<lparr>field_value = ''IED2'', user_edited = True, data_old_name = ''IED1'',
           custom_validity = msg_unique, changed = True\<rparr>,
         \<lparr>field_value = ''IED2'', user_edited = False, data_old_name = ''IED2'',
           custom_validity = msg_unique, changed = False\<rparr>],
      iedsToRename = [''IED1''], allIedNamesValid = False, dialog_open = True\<rparr>"

definition typed_back :: plugin where
  "typed_back =
     \<lparr>doc = Some [''IED1'', ''IED2''],
      ied_fields =
        [\<lparr>field_value = ''IED1'', user_edited = True, data_old_name = ''IED1'',
           custom_validity = [], changed = False\<rparr>,
         \<lparr>field_value = ''IED2'', user_edited = False, data_old_name = ''IED2'',
           custom_validity = [], changed = False\<rparr>],
      iedsToRename = [], allIedNamesValid = True, dialog_open = True\<rparr>"

definition one_renamed :: plugin where
  "one_renamed =
     \<lparr>doc = Some [''IED1'', ''IED2'', ''IED3''],
      ied_fields =
        [\<lparr>field_value = ''A1'', user_edited = True, data_old_name = ''IED1'',
           custom_validity = [], changed = True\<rparr>,
         \<lparr>field_value = ''IED2'', user_edited = False, data_old_name = ''IED2'',
           custom_validity = [], changed = False\<rparr>,
         \<lparr>field_value = ''IED3'', user_edited = False, data_old_name = ''IED3'',
           custom_validity = [], changed = False\<rparr>],
      iedsToRename = [''IED1''], allIedNamesValid = True, dialog_open = True\<rparr>"

definition two_renamed :: plugin where
  "two_renamed =
     \<lparr>doc = Some [''IED1'', ''IED2'', ''IED3''],
      ied_fields =
        [\<lparr>field_value = ''A1'', user_edited = True, data_old_name = ''IED1'',
           custom_validity = [], changed = True\<rparr>,
         \<lparr>field_value = ''B2'', user_edited = True, data_old_name = ''IED2'',
           custom_validity = [], changed = True\<rparr>,
         \<lparr>field_value = ''IED3'', user_edited = False, data_old_name = ''IED3'',
           custom_validity = [], changed = False\<rparr>],
      iedsToRename = [''IED1'', ''IED2''], allIedNamesValid = True, dialog_open = True\<rparr>"

text \<open>
  For the claims about the search: the regular expression source and the atom that one
  character of a term becomes, the characters of a term that stand for themselves
  (neither white space nor quote nor \<open>*\<close> nor \<open>?\<close>), equality of strings up to case, and
  strings without a line terminator.
\<close>

definition glob_source :: "char \<Rightarrow> string" where
  "glob_source c =
     (if is_meta c then [backslash, c]
      else if c = CHR ''*'' then ''.*''
      else if c = CHR ''?'' then ''.{1}''
      else [c])"

definition atom_of :: "char \<Rightarrow> atom" where
  "atom_of c = (if c = CHR ''*'' then DotStar else if c = CHR ''?'' then Dot else Chr c)"

definition literal_char :: "char \<Rightarrow> bool" where
  "literal_char c = (is_term_char c \<and> c \<noteq> CHR ''*'' \<and> c \<noteq> CHR ''?'')"

definition same_ignoring_case :: "string \<Rightarrow> string \<Rightarrow> bool" where
  "same_ignoring_case a b = (map canonicalize a = map canonicalize b)"

definition no_line_terminator :: "string \<Rightarrow> bool" where
  "no_line_terminator s = list_all (\<lambda>c. \<not> line_terminator c) s"

text \<open>
  What a term accepts, in the words of its description. A term matches at the start of a
  string when its characters match one after the other: \<open>*\<close> any run of zero or more
  characters other than line terminators, \<open>?\<close> exactly one character other than a line
  terminator, any other character the same character up to case. A term is found in a
  string when it matches after such a run (the \<open>.*\<close> that opens its lookahead), and a
  list of terms accepts a candidate when from some position on every term is found.
\<close>

primrec glob_prefix :: "string \<Rightarrow> string \<Rightarrow> bool" where
  "glob_prefix [] s = True"
| "glob_prefix (c # g) s =
     (if c = CHR ''*'' then (\<exists>r w. s = r @ w \<and> no_line_terminator r \<and> glob_prefix g w)
      else if c = CHR ''?'' then (\<exists>x w. s = x # w \<and> \<not> line_terminator x \<and> glob_prefix g w)
      else (\<exists>x w. s = x # w \<and> canonicalize x = canonicalize c \<and> glob_prefix g w))"

definition term_found :: "string \<Rightarrow> string \<Rightarrow> bool" where
  "term_found g v = (\<exists>r w. v = r @ w \<and> no_line_terminator r \<and> glob_prefix g w)"

definition accepts :: "string list \<Rightarrow> string \<Rightarrow> bool" where
  "accepts gs s = (\<exists>u v. s = u @ v \<and> list_all (\<lambda>g. term_found g v) gs)"

text \<open>
  The terms of a search text: the matches of the term pattern in the trimmed text, each
  without its quotes.
\<close>

definition search_terms :: "string \<Rightarrow> string list" where
  "search_terms searchExpression =
     map (filter (\<lambda>c. \<not> is_quote c)) (match_all (trim searchExpression))"

text \<open>
  A string in which every backslash is followed by a character of the escaped class and
  every character of that class follows such a backslash: what the first \<open>replace\<close>
  produces, and what every term keeps.
\<close>

fun escaped :: "string \<Rightarrow> bool" where
  "escaped [] = True"
| "escaped [c] = (\<not> is_meta c)"
| "escaped (c # d # s) =
     (if c = backslash then is_meta d \<and> escaped s else \<not> is_meta c \<and> escaped (d # s))"

section \<open>The validation engine: lemmas\<close>

lemma msgs_nonempty:
  "msg_missing \<noteq> []" "msg_pattern \<noteq> []" "msg_length \<noteq> []" "msg_unique \<noteq> []"
  by (simp_all add: msg_missing_def msg_pattern_def msg_length_def msg_unique_def)

lemma customCheckValidity_eq:
  assumes "i < length (ied_fields s)"
  shows "customCheckValidity i s =
    (s\<lparr>ied_fields := (ied_fields s)[i := set_message s (ied_fields s ! i)]\<rparr>,
     validity_message s (ied_fields s ! i) = [])"
  using assms
  by (simp add: customCheckValidity_def validity_message_def set_message_def Let_def msgs_nonempty)

lemma validity_message_cong:
  assumes "doc s' = doc s" "map field_value (ied_fields s') = map field_value (ied_fields s)"
  shows "validity_message s' e = validity_message s e"
  using assms by (simp add: validity_message_def duplicatedIedName_def)

lemma validity_message_same:
  assumes "field_value e' = field_value e" "user_edited e' = user_edited e"
  shows "validity_message s e' = validity_message s e"
  using assms by (simp add: validity_message_def tooLong_def tooShort_def)

lemma validity_message_upd [simp]:
  "validity_message s (e\<lparr>custom_validity := m\<rparr>) = validity_message s e"
  "validity_message s (e\<lparr>changed := b\<rparr>) = validity_message s e"
  by (rule validity_message_same; simp)+

lemma set_message_value [simp]: "field_value (set_message s e) = field_value e"
  by (simp add: set_message_def)

lemma set_message_cong:
  assumes "doc s' = doc s" "map field_value (ied_fields s') = map field_value (ied_fields s)"
  shows "set_message s' = set_message s"
  using validity_message_cong[OF assms] by (simp add: set_message_def fun_eq_iff)

lemma map_value_update:
  assumes "field_value x = field_value (xs ! i)"
  shows "map field_value (xs[i := x]) = map field_value xs"
proof (cases "i < length xs")
  case True
  then have "(map field_value xs)[i := field_value (xs ! i)] = map field_value xs"
    by (metis list_update_id nth_map)
  then show ?thesis using assms by (simp add: map_update)
next
  case False
  then have "length xs \<le> i" by simp
  then show ?thesis by (simp only: list_update_beyond)
qed

lemma check_from_eq:
  "i + k = length (ied_fields s) \<Longrightarrow>
   check_from i k s =
     (s\<lparr>ied_fields := take i (ied_fields s) @ map (set_message s) (drop i (ied_fields s))\<rparr>,
      map (\<lambda>e. validity_message s e = []) (drop i (ied_fields s)))"
proof (induction k arbitrary: i s)
  case 0
  then show ?case by simp
next
  case (Suc k)
  let ?fs = "ied_fields s"
  let ?s1 = "s\<lparr>ied_fields := ?fs[i := set_message s (?fs ! i)]\<rparr>"
  from Suc.prems have i: "i < length ?fs" by simp
  have c: "customCheckValidity i s = (?s1, validity_message s (?fs ! i) = [])"
    by (rule customCheckValidity_eq[OF i])
  have vals: "map field_value (?fs[i := set_message s (?fs ! i)]) = map field_value ?fs"
    by (rule map_value_update) simp
  have sm: "set_message ?s1 = set_message s"
    by (rule set_message_cong) (simp_all add: vals)
  have vm: "\<And>e. validity_message ?s1 e = validity_message s e"
    by (rule validity_message_cong) (simp_all add: vals)
  have len: "Suc i + k = length (ied_fields ?s1)" using Suc.prems by simp
  have d: "drop i ?fs = ?fs ! i # drop (Suc i) ?fs"
    using i by (simp add: Cons_nth_drop_Suc)
  have t: "take (Suc i) (?fs[i := set_message s (?fs ! i)]) = take i ?fs @ [set_message s (?fs ! i)]"
    using i by (simp add: take_Suc_conv_app_nth)
  show ?case
    apply (simp only: check_from.simps c Suc.IH[OF len] Let_def split_conv sm vm)
    apply (simp only: d)
    apply (simp add: t)
    done
qed

lemma foldl_and: "foldl (\<and>) b bs = (b \<and> list_all id bs)"
  by (induction bs arbitrary: b) auto

lemma check_all_eq:
  "check_all s =
     (s\<lparr>ied_fields := map (set_message s) (ied_fields s)\<rparr>,
      map (\<lambda>e. validity_message s e = []) (ied_fields s))"
  by (simp add: check_all_def check_from_eq)

lemma set_message_idem [simp]: "set_message s (set_message s e) = set_message s e"
  by (simp add: set_message_def)

lemma set_message_fields [simp]:
  "data_old_name (set_message s e) = data_old_name e"
  "user_edited (set_message s e) = user_edited e"
  "changed (set_message s e) = changed e"
  "custom_validity (set_message s e) = validity_message s e"
  by (simp_all add: set_message_def)

lemma validity_message_set_message [simp]:
  "validity_message s (set_message s' e) = validity_message s e"
  by (simp add: set_message_def)

lemma input_handler_eq:
  assumes i: "i < length (ied_fields s)"
  shows "input_handler i s = Inr (handled i s)"
proof -
  let ?fs = "ied_fields s"
  let ?s1 = "s\<lparr>ied_fields := ?fs[i := set_message s (?fs ! i)]\<rparr>"
  have c: "customCheckValidity i s = (?s1, validity_message s (?fs ! i) = [])"
    by (rule customCheckValidity_eq[OF i])
  have vals: "map field_value (?fs[i := set_message s (?fs ! i)]) = map field_value ?fs"
    by (rule map_value_update) simp
  have sm: "set_message ?s1 = set_message s"
    by (rule set_message_cong) (simp_all add: vals)
  have vm: "\<And>e. validity_message ?s1 e = validity_message s e"
    by (rule validity_message_cong) (simp_all add: vals)
  have m: "map (set_message s) (?fs[i := set_message s (?fs ! i)]) = map (set_message s) ?fs"
    using i by (simp add: map_update list_update_same_conv)
  have bs: "map (\<lambda>e. validity_message s e = []) (?fs[i := set_message s (?fs ! i)])
            = map (\<lambda>e. validity_message s e = []) ?fs"
    using i by (simp add: map_update list_update_same_conv)
  have ca: "check_all ?s1 =
     (s\<lparr>ied_fields := map (set_message s) ?fs\<rparr>,
      map (\<lambda>e. validity_message s e = []) ?fs)"
    by (simp add: check_all_eq sm vm m bs)
  obtain e es where fs: "?fs = e # es" using i by (cases ?fs) auto
  have r: "reduce_and (map (\<lambda>e. validity_message s e = []) ?fs)
           = Inr (list_all (\<lambda>e. validity_message s e = []) ?fs)"
    by (simp add: fs reduce_and_def foldl_and list_all_iff)
  show ?thesis
    using i
    by (simp add: input_handler_def c ca r handled_def renames_after_def Let_def)
qed

lemma handled_simps [simp]:
  "doc (handled i s) = doc s"
  "dialog_open (handled i s) = dialog_open s"
  "length (ied_fields (handled i s)) = length (ied_fields s)"
  "allIedNamesValid (handled i s) =
     list_all (\<lambda>e. validity_message s e = []) (ied_fields s)"
  by (simp_all add: handled_def)

lemma handled_nth:
  assumes "j < length (ied_fields s)"
  shows "field_value (ied_fields (handled i s) ! j) = field_value (ied_fields s ! j)"
    and "data_old_name (ied_fields (handled i s) ! j) = data_old_name (ied_fields s ! j)"
    and "custom_validity (ied_fields (handled i s) ! j) =
           validity_message s (ied_fields s ! j)"
    and "user_edited (ied_fields (handled i s) ! j) = user_edited (ied_fields s ! j)"
  using assms by (cases "i < length (ied_fields s)"; cases "j = i"; simp add: handled_def)+

lemma handled_nth_message:
  assumes "j < length (ied_fields s)"
  shows "validity_message s' (ied_fields (handled i s) ! j) = validity_message s' (ied_fields s ! j)"
  by (rule validity_message_same) (simp_all add: handled_nth assms)

lemma handled_values: "map field_value (ied_fields (handled i s)) = map field_value (ied_fields s)"
  by (rule nth_equalityI) (simp_all add: handled_nth)

lemma handled_message: "validity_message (handled i s) e = validity_message s e"
  by (rule validity_message_cong) (simp_all add: handled_values)

lemma renames_after_idem: "renames_after v oldName (renames_after v oldName r) = renames_after v oldName r"
  by (simp add: renames_after_def)

lemma set_message_comp: "set_message s \<circ> set_message s = set_message s"
  by (simp add: fun_eq_iff)

lemma set_message_changed: "set_message s (e\<lparr>changed := b\<rparr>) = (set_message s e)\<lparr>changed := b\<rparr>"
  by (simp add: set_message_def)

lemma handled_idem:
  assumes i: "i < length (ied_fields s)"
  shows "handled i (handled i s) = handled i s"
proof -
  have sm: "set_message (handled i s) = set_message s"
    by (rule set_message_cong) (simp_all add: handled_values)
  have la: "list_all (\<lambda>e. validity_message s e = []) (ied_fields (handled i s))
          = list_all (\<lambda>e. validity_message s e = []) (ied_fields s)"
    by (simp add: list_all_length handled_nth_message)
  have fs: "(map (set_message s) (ied_fields (handled i s)))
             [i := (set_message s (ied_fields (handled i s) ! i))
                   \<lparr>changed := (field_value (ied_fields s ! i) \<noteq> data_old_name (ied_fields s ! i))\<rparr>]
            = ied_fields (handled i s)"
    using i by (simp add: handled_def map_update set_message_comp set_message_changed)
  have "handled i (handled i s) =
     (handled i s)\<lparr>ied_fields := ied_fields (handled i s),
        allIedNamesValid := allIedNamesValid (handled i s),
        iedsToRename := iedsToRename (handled i s)\<rparr>"
    unfolding handled_def[of i "handled i s"]
    using i
    by (simp add: sm handled_message la handled_nth fs)
       (simp add: handled_def renames_after_idem)
  then show ?thesis by simp
qed

lemma set_field_value_same:
  assumes "i < length (ied_fields s)" "field_value (ied_fields s ! i) = v"
    and "user_edited (ied_fields s ! i) = u"
  shows "set_field_value u i v s = s"
proof -
  have "(ied_fields s ! i)\<lparr>field_value := v, user_edited := u\<rparr> = ied_fields s ! i"
    using assms(2,3) by simp
  then show ?thesis by (simp add: set_field_value_def)
qed

lemma value_event_eq:
  assumes "i < length (ied_fields s)"
  shows "value_event u i v s = Inr (handled i (set_field_value u i v s))"
  using assms by (simp add: value_event_def input_handler_eq set_field_value_def)

lemma input_event_eq:
  assumes "i < length (ied_fields s)"
  shows "input_event i v s = Inr (handled i (set_field_value True i v s))"
  using assms by (simp add: input_event_def value_event_eq)

lemma input_event_error:
  "\<not> i < length (ied_fields s) \<Longrightarrow> input_event i v s = Inl NoSuchField"
  by (simp add: input_event_def value_event_def)

lemma set_field_value_simps [simp]:
  "doc (set_field_value u i v s) = doc s"
  "length (ied_fields (set_field_value u i v s)) = length (ied_fields s)"
  "iedsToRename (set_field_value u i v s) = iedsToRename s"
  by (simp_all add: set_field_value_def)

lemma set_field_value_nth:
  "i < length (ied_fields s) \<Longrightarrow> field_value (ied_fields (set_field_value u i v s) ! i) = v"
  "i < length (ied_fields s) \<Longrightarrow> user_edited (ied_fields (set_field_value u i v s) ! i) = u"
  by (simp_all add: set_field_value_def)

lemma two_ieds_eq:
  "two_ieds =
     \<lparr>doc = Some [''IED1'', ''IED2''],
      ied_fields =
        [\<lparr>field_value = ''IED1'', user_edited = False, data_old_name = ''IED1'', custom_validity = [], changed = False\<rparr>,
         \<lparr>field_value = ''IED2'', user_edited = False, data_old_name = ''IED2'', custom_validity = [], changed = False\<rparr>],
      iedsToRename = [], allIedNamesValid = True, dialog_open = True\<rparr>"
  by (simp add: two_ieds_def run_def rendered_def renderIedItem_def reset_field_def)


lemmas flag_defs =
  valueMissing_def patternMismatch_def tooLong_def tooShort_def minLength_def maxLength_def
  is_letter_def is_digit_def is_name_char_def

lemma customCheckValidity_snd:
  assumes "j < length (ied_fields s)"
  shows "snd (customCheckValidity j s) = (validity_message s (ied_fields s ! j) = [])"
  using assms by (simp add: customCheckValidity_eq)

lemma input_IED2: "input_event 0 ''IED2'' two_ieds = Inr both_IED2"
  by (simp add: input_event_eq two_ieds_eq both_IED2_def handled_def set_field_value_def
      set_message_def validity_message_def duplicatedIedName_def renames_after_def flag_defs
      msgs_nonempty)

lemma input_IED1_back: "input_event 0 ''IED1'' both_IED2 = Inr typed_back"
  by (simp add: input_event_eq both_IED2_def typed_back_def handled_def set_field_value_def
      set_message_def validity_message_def duplicatedIedName_def renames_after_def flag_defs
      msgs_nonempty)

lemma value_event_message:
  assumes "i < length (ied_fields s)"
  shows "\<exists>s'. value_event u i v s = Inr s' \<and> length (ied_fields s') = length (ied_fields s)
     \<and> field_value (ied_fields s' ! i) = v \<and> user_edited (ied_fields s' ! i) = u
     \<and> custom_validity (ied_fields s' ! i) =
         validity_message (set_field_value u i v s) (ied_fields s' ! i)
     \<and> allIedNamesValid s' =
         list_all (\<lambda>e. validity_message (set_field_value u i v s) e = [])
           (ied_fields (set_field_value u i v s))"
  using assms
  by (simp add: value_event_eq handled_nth set_field_value_nth handled_nth_message)

lemma pattern_matches_nonempty: "pattern_matches v \<Longrightarrow> v \<noteq> []"
  by (cases v) simp_all

lemma letters_match: "pattern_matches (replicate (Suc n) CHR ''A'')"
  by (simp add: list_all_iff is_name_char_def is_letter_def)

lemma msgs_distinct: "distinct [msg_missing, msg_pattern, msg_length, msg_unique, []]"
  by (simp add: msg_missing_def msg_pattern_def msg_length_def msg_unique_def)

lemma filter_eq_once:
  assumes "i < length xs" and "\<forall>j < length xs. j \<noteq> i \<longrightarrow> xs ! j \<noteq> xs ! i"
  shows "length (filter (\<lambda>x. x = xs ! i) xs) = 1"
proof -
  have xs: "xs = take i xs @ xs ! i # drop (Suc i) xs"
    using assms(1) by (simp add: id_take_nth_drop[symmetric])
  have a: "filter (\<lambda>x. x = xs ! i) (take i xs) = []"
    using assms by (auto simp: filter_empty_conv in_set_conv_nth)
  have b: "filter (\<lambda>x. x = xs ! i) (drop (Suc i) xs) = []"
    using assms by (auto simp: filter_empty_conv in_set_conv_nth)
  have "filter (\<lambda>x. x = xs ! i) xs
        = filter (\<lambda>x. x = xs ! i) (take i xs @ xs ! i # drop (Suc i) xs)"
    using xs by simp
  then show ?thesis by (simp add: a b)
qed

lemma duplicated_iff:
  "duplicatedIedName s v \<longleftrightarrow>
     doc s \<noteq> None \<and> length (filter (\<lambda>e. field_value e = v) (ied_fields s)) \<noteq> 1"
  by (simp add: duplicatedIedName_def filter_map comp_def)

lemma pending_nth:
  "pending s = {data_old_name (ied_fields s ! j) | j. j < length (ied_fields s)
                  \<and> field_value (ied_fields s ! j) \<noteq> data_old_name (ied_fields s ! j)}"
  unfolding pending_def by (auto simp: in_set_conv_nth) 

lemma tracked_initial:
  assumes "distinct names"
  shows "tracked names (run (rendered names))"
  using assms
  by (auto simp: tracked_def pending_def run_def rendered_def renderIedItem_def reset_field_def
      comp_def)

lemma set_renames_after:
  "set (renames_after v oldName r) = (if v \<noteq> oldName then insert oldName (set r) else set r - {oldName})"
  by (auto simp: renames_after_def)

lemma distinct_renames_after: "distinct r \<Longrightarrow> distinct (renames_after v oldName r)"
  by (auto simp: renames_after_def)

lemma handled_old_names:
  "map data_old_name (ied_fields (handled i s)) = map data_old_name (ied_fields s)"
  by (rule nth_equalityI) (simp_all add: handled_nth)

lemma nth_update_value:
  assumes "j < length xs"
  shows "data_old_name (xs[i := (xs ! i)\<lparr>field_value := v, user_edited := u\<rparr>] ! j)
           = data_old_name (xs ! j)"
    and "field_value (xs[i := (xs ! i)\<lparr>field_value := v, user_edited := u\<rparr>] ! j)
           = (if j = i then v else field_value (xs ! j))"
  using assms by (cases "i = j"; simp)+

lemma set_field_value_old_names:
  "map data_old_name (ied_fields (set_field_value u i v s)) = map data_old_name (ied_fields s)"
  by (rule nth_equalityI) (simp_all add: set_field_value_def nth_update_value)

lemma tracked_input_event:
  assumes t: "tracked names s" and i: "i < length (ied_fields s)"
  shows "tracked names (handled i (set_field_value u i v s))"
proof -
  let ?t = "set_field_value u i v s"
  let ?s' = "handled i ?t"
  let ?o = "data_old_name (ied_fields s ! i)"
  have names: "map data_old_name (ied_fields s) = names" and d: "distinct names"
    and r: "set (iedsToRename s) = pending s" and dr: "distinct (iedsToRename s)"
    and doc: "doc s = Some names"
    using t by (simp_all add: tracked_def)
  have len: "length (ied_fields ?s') = length (ied_fields s)" by simp
  have old: "data_old_name (ied_fields ?s' ! j) = data_old_name (ied_fields s ! j)"
    if "j < length (ied_fields s)" for j
    using that by (simp add: handled_nth) (simp add: set_field_value_def nth_update_value)
  have val: "field_value (ied_fields ?s' ! j) = (if j = i then v else field_value (ied_fields s ! j))"
    if "j < length (ied_fields s)" for j
    using that by (simp add: handled_nth) (simp add: set_field_value_def nth_update_value)
  have inj: "data_old_name (ied_fields s ! j) = ?o \<longleftrightarrow> j = i"
    if "j < length (ied_fields s)" for j
  proof -
    have "names ! j = data_old_name (ied_fields s ! j)" "names ! i = ?o"
      using that i names by (auto simp: nth_map[symmetric] simp del: nth_map)
    moreover have "j < length names" "i < length names" using that i names by auto
    ultimately show ?thesis using d by (metis nth_eq_iff_index_eq)
  qed
  have p: "pending ?s' = (if v \<noteq> ?o then insert ?o (pending s) else pending s - {?o})"
  proof (rule set_eqI)
    fix x
    have "x \<in> pending ?s' \<longleftrightarrow>
            (\<exists>j. j < length (ied_fields s) \<and> x = data_old_name (ied_fields ?s' ! j)
               \<and> field_value (ied_fields ?s' ! j) \<noteq> data_old_name (ied_fields ?s' ! j))"
      unfolding pending_nth[of ?s'] len by blast
    also have "\<dots> \<longleftrightarrow>
            (\<exists>j. j < length (ied_fields s) \<and> x = data_old_name (ied_fields s ! j)
               \<and> (if j = i then v else field_value (ied_fields s ! j))
                   \<noteq> data_old_name (ied_fields s ! j))"
      by (rule ex_cong1) (simp add: old val cong: conj_cong)
    also have "\<dots> \<longleftrightarrow> x \<in> (if v \<noteq> ?o then insert ?o (pending s) else pending s - {?o})"
      unfolding pending_nth[of s] using i inj by (auto split: if_splits)
    finally show "x \<in> pending ?s' \<longleftrightarrow>
        x \<in> (if v \<noteq> ?o then insert ?o (pending s) else pending s - {?o})" .
  qed
  have ren: "iedsToRename ?s' = renames_after v ?o (iedsToRename s)"
    using i by (simp add: handled_def set_field_value_def)
  show ?thesis
    unfolding tracked_def
    using doc names d dr r
    by (simp add: handled_old_names set_field_value_old_names ren set_renames_after
        distinct_renames_after p)
qed

lemma tracked_edits:
  assumes "tracked names s" and "edits es s = Inr s'"
  shows "tracked names s'"
  using assms
proof (induction es arbitrary: s)
  case Nil
  then show ?case by simp
next
  case (Cons e es)
  obtain i v where e: "e = (i, v)" by (cases e)
  show ?case
  proof (cases "i < length (ied_fields s)")
    case True
    then have ev: "input_event i v s = Inr (handled i (set_field_value True i v s))"
      by (rule input_event_eq)
    with Cons.prems(2) have "edits es (handled i (set_field_value True i v s)) = Inr s'"
      by (simp add: e)
    moreover have "tracked names (handled i (set_field_value True i v s))"
      by (rule tracked_input_event[OF Cons.prems(1) True])
    ultimately show ?thesis by (rule Cons.IH[rotated])
  next
    case False
    then show ?thesis using Cons.prems(2) by (simp add: e input_event_error)
  qed
qed

lemma dispatch_items_found:
  assumes "list_all selector_safe (map data_old_name items)"
    and "set (map data_old_name items) \<subseteq> set names"
  shows "dispatch_items q names items =
           (map (\<lambda>e. (data_old_name e, field_value e)) items, None)"
  using assms by (induction items) (simp_all add: find_ied_def)

lemma rename_click_tracked:
  assumes "tracked names s" and "list_all selector_safe names" and "\<not> rename_disabled s"
  shows "rename_click q s =
           (map (\<lambda>e. (data_old_name e, field_value e)) (ied_fields s),
            Inr (s\<lparr>dialog_open := False\<rparr>))"
proof -
  have doc: "doc s = Some names" and names: "map data_old_name (ied_fields s) = names"
    using assms(1) by (simp_all add: tracked_def)
  have "dispatch_items q names (ied_fields s) =
          (map (\<lambda>e. (data_old_name e, field_value e)) (ied_fields s), None)"
    by (rule dispatch_items_found) (simp_all only: names assms(2) subset_refl)
  then show ?thesis
    using assms(3) doc by (simp add: rename_click_def rename_click_handler_def)
qed

lemma three_ieds_eq:
  "three_ieds =
     \<lparr>doc = Some [''IED1'', ''IED2'', ''IED3''],
      ied_fields =
        [\<lparr>field_value = ''IED1'', user_edited = False, data_old_name = ''IED1'', custom_validity = [], changed = False\<rparr>,
         \<lparr>field_value = ''IED2'', user_edited = False, data_old_name = ''IED2'', custom_validity = [], changed = False\<rparr>,
         \<lparr>field_value = ''IED3'', user_edited = False, data_old_name = ''IED3'', custom_validity = [], changed = False\<rparr>],
      iedsToRename = [], allIedNamesValid = True, dialog_open = True\<rparr>"
  by (simp add: three_ieds_def run_def rendered_def renderIedItem_def reset_field_def)

lemma input_A1: "input_event 0 ''A1'' three_ieds = Inr one_renamed"
  by (simp add: input_event_eq three_ieds_eq one_renamed_def handled_def set_field_value_def
      set_message_def validity_message_def duplicatedIedName_def renames_after_def flag_defs
      msgs_nonempty)

lemma input_B2: "input_event 1 ''B2'' one_renamed = Inr two_renamed"
  by (simp add: input_event_eq one_renamed_def two_renamed_def handled_def set_field_value_def
      set_message_def validity_message_def duplicatedIedName_def renames_after_def flag_defs
      msgs_nonempty)

lemma edits_two_renamed: "edits [(0, ''A1''), (1, ''B2'')] three_ieds = Inr two_renamed"
  using input_A1 input_B2 by simp

lemma click_two_renamed:
  "rename_click q two_renamed =
     ([(''IED1'', ''A1''), (''IED2'', ''B2''), (''IED3'', ''IED3'')],
      Inr (two_renamed\<lparr>dialog_open := False\<rparr>))"
  by (simp add: rename_click_def rename_disabled_def rename_click_handler_def find_ied_def
      selector_safe_def two_renamed_def)

lemma handled_all_fields_valid: "allIedNamesValid (handled i s) = all_fields_valid (handled i s)"
  by (simp add: all_fields_valid_def list_all_length handled_nth_message handled_message)

lemma validated_edits:
  assumes "validated s" and "edits es s = Inr s'"
  shows "validated s'"
  using assms
proof (induction es arbitrary: s)
  case Nil
  then show ?case by simp
next
  case (Cons e es)
  obtain i v where e: "e = (i, v)" by (cases e)
  show ?case
  proof (cases "i < length (ied_fields s)")
    case True
    then have ev: "input_event i v s = Inr (handled i (set_field_value True i v s))"
      by (rule input_event_eq)
    with Cons.prems(2) have "edits es (handled i (set_field_value True i v s)) = Inr s'"
      by (simp add: e)
    moreover have "validated (handled i (set_field_value True i v s))"
      unfolding validated_def
      using handled_all_fields_valid[of i "set_field_value True i v s"] by blast
    ultimately show ?thesis by (rule Cons.IH[rotated])
  next
    case False
    then show ?thesis using Cons.prems(2) by (simp add: e input_event_error)
  qed
qed

lemma validated_initial: "validated (run (rendered names))"
  by (simp add: validated_def run_def rendered_def)

lemma unique_value_valid:
  assumes "i < length (ied_fields s)"
    and "\<forall>k < length (ied_fields s). k \<noteq> i \<longrightarrow>
           field_value (ied_fields s ! k) \<noteq> field_value (ied_fields s ! i)"
  shows "\<not> duplicatedIedName s (field_value (ied_fields s ! i))"
    and "validity_message s (ied_fields s ! i) \<noteq> msg_unique"
    and "pattern_matches (field_value (ied_fields s ! i))
         \<and> length (field_value (ied_fields s ! i)) \<le> maxLength
       \<longrightarrow> customCheckValidity i s =
             (s\<lparr>ied_fields := (ied_fields s)[i := (ied_fields s ! i)\<lparr>custom_validity := []\<rparr>]\<rparr>,
              True)"
proof -
  let ?vs = "map field_value (ied_fields s)"
  let ?e = "ied_fields s ! i"
  let ?v = "field_value ?e"
  have "\<forall>k < length ?vs. k \<noteq> i \<longrightarrow> ?vs ! k \<noteq> ?vs ! i"
    using assms(1,2) by auto
  moreover have "i < length ?vs" using assms(1) by simp
  ultimately have "length (filter (\<lambda>x. x = ?vs ! i) ?vs) = 1"
    by (rule filter_eq_once[rotated])
  then show nd: "\<not> duplicatedIedName s ?v"
    using assms(1) by (simp add: duplicatedIedName_def)
  then show "validity_message s ?e \<noteq> msg_unique"
    using msgs_distinct by (auto simp: validity_message_def)
  have "validity_message s ?e = []"
    if "pattern_matches ?v" "length ?v \<le> maxLength"
    using that nd pattern_matches_nonempty[OF that(1)]
    by (simp add: validity_message_def valueMissing_def patternMismatch_def tooLong_def
        tooShort_def minLength_def)
  then show "pattern_matches ?v \<and> length ?v \<le> maxLength
       \<longrightarrow> customCheckValidity i s =
             (s\<lparr>ied_fields := (ied_fields s)[i := (ied_fields s ! i)\<lparr>custom_validity := []\<rparr>]\<rparr>,
              True)"
    using customCheckValidity_eq[OF assms(1)] by (simp add: set_message_def)
qed

lemma value_event_rejects:
  assumes "i < length (ied_fields s)"
    and "validity_message (set_field_value u i v s) (ied_fields (set_field_value u i v s) ! i) = m"
    and "m \<noteq> []"
  shows "\<exists>s'. value_event u i v s = Inr s' \<and> custom_validity (ied_fields s' ! i) = m
           \<and> \<not> allIedNamesValid s'"
proof -
  let ?t = "set_field_value u i v s"
  have "ied_fields ?t ! i \<in> set (ied_fields ?t)" using assms(1) by simp
  then have "\<exists>e \<in> set (ied_fields ?t). validity_message ?t e \<noteq> []"
    using assms(2,3) by (intro bexI[of _ "ied_fields ?t ! i"]) simp_all
  then have "\<not> list_all (\<lambda>e. validity_message ?t e = []) (ied_fields ?t)"
    by (simp add: list_all_iff)
  then show ?thesis
    using assms by (simp add: value_event_eq handled_nth)
qed

text \<open>
  The message of the edited field after an event, by the rules: the flags are those of
  the value \<open>v\<close> and of the way it came into the field.
\<close>

lemma edited_field_message:
  assumes "i < length (ied_fields s)"
  shows "validity_message (set_field_value u i v s) (ied_fields (set_field_value u i v s) ! i) =
     (if v = [] then msg_missing
      else if \<not> pattern_matches v then msg_pattern
      else if u \<and> maxLength < length v then msg_length
      else if duplicatedIedName (set_field_value u i v s) v then msg_unique
      else [])"
  using assms
  by (simp add: validity_message_def valueMissing_def patternMismatch_def tooLong_def
      tooShort_def minLength_def set_field_value_def)

text \<open>
  At exactly 64 characters the field's \<open>maxLength="64"\<close> lets the value pass, while the
  message of the length rule asks for fewer than 64 characters.
\<close>

lemma letters_accepted:
  assumes "u \<longrightarrow> Suc n \<le> 64"
  shows "\<exists>s'. value_event u 0 (replicate (Suc n) CHR ''A'') two_ieds = Inr s'
        \<and> custom_validity (ied_fields s' ! 0) = [] \<and> allIedNamesValid s'"
proof -
  let ?v = "replicate (Suc n) CHR ''A''"
  let ?t = "set_field_value u 0 ?v two_ieds"
  have h: "0 < length (ied_fields two_ieds)" by (simp add: two_ieds_eq)
  have p: "pattern_matches ?v" by (rule letters_match)
  have ne: "?v \<noteq> ''IED2''" "''IED2'' \<noteq> ?v" "?v \<noteq> []" by simp_all
  have fs: "ied_fields ?t =
      [\<lparr>field_value = ?v, user_edited = u, data_old_name = ''IED1'',
         custom_validity = [], changed = False\<rparr>,
       \<lparr>field_value = ''IED2'', user_edited = False, data_old_name = ''IED2'',
         custom_validity = [], changed = False\<rparr>]"
    by (simp add: set_field_value_def two_ieds_eq)
  have d: "doc ?t = Some [''IED1'', ''IED2'']" by (simp add: two_ieds_eq)
  have m: "validity_message ?t (ied_fields ?t ! 0) = []"
    using p ne assms unfolding fs
    by (auto simp add: validity_message_def valueMissing_def patternMismatch_def tooLong_def
        tooShort_def maxLength_def minLength_def duplicatedIedName_def d fs
        simp del: replicate_Suc replicate.simps)
  have m2: "validity_message ?t (ied_fields ?t ! 1) = []"
    using ne unfolding fs
    by (simp add: validity_message_def duplicatedIedName_def d fs flag_defs
        del: replicate_Suc replicate.simps)
  have "list_all (\<lambda>e. validity_message ?t e = []) (ied_fields ?t)"
    using m m2 unfolding fs by simp
  then show ?thesis
    using m h by (simp add: value_event_eq handled_nth)
qed

lemma sixty_four_letters_accepted:
  "\<exists>s'. input_event 0 (replicate 64 CHR ''A'') two_ieds = Inr s'
        \<and> length (replicate 64 CHR ''A'') = 64
        \<and> custom_validity (ied_fields s' ! 0) = [] \<and> allIedNamesValid s'"
  using letters_accepted[of True 63] by (simp add: input_event_def)

text \<open>
  Names that cannot stand in the selector as they are. With a device named \<open>IED\<close>, double
  quote, \<open>1\<close>, renamed to \<open>IED1\<close>, the button is enabled and the handler ends with the
  exception that the platform raises for the selector, before anything is dispatched.
  With a device named \<open>IED\<close>, backslash, \<open>1\<close>, for which the platform finds no element,
  the handler dispatches the edit of the other device only and closes the dialog.
\<close>

lemma click_with_quote_in_name:
  assumes "querySelector (ied_selector [CHR ''I'', CHR ''E'', CHR ''D'', CHR 0x22, CHR ''1''])
             = Inl SyntaxError"
  shows "\<exists>s. edits [(0, ''IED1'')]
               (run (rendered [[CHR ''I'', CHR ''E'', CHR ''D'', CHR 0x22, CHR ''1''], ''IED2''])) = Inr s
           \<and> \<not> rename_disabled s
           \<and> rename_click querySelector s = ([], Inl SyntaxError)"
  using assms
  by (simp add: input_event_eq run_def rendered_def renderIedItem_def reset_field_def
      handled_def set_field_value_def set_message_def validity_message_def
      duplicatedIedName_def renames_after_def flag_defs msgs_nonempty rename_disabled_def
      rename_click_def rename_click_handler_def find_ied_def selector_safe_def)

lemma click_with_backslash_in_name:
  assumes "querySelector (ied_selector [CHR ''I'', CHR ''E'', CHR ''D'', CHR 0x5C, CHR ''1''])
             = Inr False"
  shows "\<exists>s. edits [(0, ''IED1'')]
               (run (rendered [[CHR ''I'', CHR ''E'', CHR ''D'', CHR 0x5C, CHR ''1''], ''IED2''])) = Inr s
           \<and> \<not> rename_disabled s
           \<and> rename_click querySelector s = ([(''IED2'', ''IED2'')], Inr (s\<lparr>dialog_open := False\<rparr>))"
  using assms
  by (simp add: input_event_eq run_def rendered_def renderIedItem_def reset_field_def
      handled_def set_field_value_def set_message_def validity_message_def
      duplicatedIedName_def renames_after_def flag_defs msgs_nonempty rename_disabled_def
      rename_click_def rename_click_handler_def find_ied_def selector_safe_def)
section \<open>The search box: lemmas\<close>

lemma escape_meta_append: "escape_meta (a @ b) = escape_meta a @ escape_meta b"
  by (simp add: escape_meta_def)

lemma escape_meta_Nil [simp]: "escape_meta [] = []"
  by (simp add: escape_meta_def)

lemma escape_meta_Cons:
  "escape_meta (c # s) = (if is_meta c then [backslash, c] else [c]) @ escape_meta s"
  by (simp add: escape_meta_def)

lemma term_char_backslash: "is_term_char backslash"
  by (simp add: is_term_char_def is_space_def is_quote_def)

lemma escape_meta_term_chars:
  "list_all is_term_char g \<Longrightarrow> list_all is_term_char (escape_meta g)"
  by (induction g) (simp_all add: escape_meta_Cons term_char_backslash)

lemma escape_meta_empty_iff: "escape_meta g = [] \<longleftrightarrow> g = []"
  by (cases g) (simp_all add: escape_meta_Cons)

lemma dropWhile_id: "s = [] \<or> \<not> P (hd s) \<Longrightarrow> dropWhile P s = s"
  by (cases s) auto

lemma trim_id:
  assumes "s \<noteq> []" "\<not> is_space (hd s)" "\<not> is_space (last s)"
  shows "trim s = s"
proof -
  have "dropWhile is_space s = s" using assms by (simp add: dropWhile_id)
  moreover have "dropWhile is_space (rev s) = rev s"
    using assms by (intro dropWhile_id) (simp add: hd_rev)
  ultimately show ?thesis by (simp add: trim_def)
qed

lemma space_not_term_char: "is_space c \<Longrightarrow> \<not> is_term_char c"
  by (simp add: is_term_char_def)

lemma space_not_quote: "is_space c \<Longrightarrow> \<not> is_quote c"
  by (auto simp: is_space_def is_quote_def)

lemma group_step_space: "is_space c \<Longrightarrow> group_step (c # r) = None"
  by (simp add: group_step_def space_not_term_char space_not_quote)

lemma group_star_stop: "rest = [] \<or> is_space (hd rest) \<Longrightarrow> group_star rest = ([], rest)"
  by (cases rest) (auto simp: group_star.simps group_step_space, simp add: group_step_def)

lemma takeWhile_all:
  assumes "list_all P e" "rest = [] \<or> \<not> P (hd rest)"
  shows "takeWhile P (e @ rest) = e" "dropWhile P (e @ rest) = rest"
  using assms by (cases rest; simp add: list_all_iff takeWhile_append2 dropWhile_append2)+

lemma group_plus_term:
  assumes "list_all is_term_char e" "e \<noteq> []" "rest = [] \<or> is_space (hd rest)"
  shows "group_plus (e @ rest) = Some (e, rest)"
proof -
  obtain c e' where e: "e = c # e'" using assms(2) by (cases e) auto
  have c: "is_term_char c" using assms(1) e by simp
  have r: "rest = [] \<or> \<not> is_term_char (hd rest)"
    using assms(3) space_not_term_char by auto
  have "group_step (e @ rest) = Some (takeWhile is_term_char (e @ rest), dropWhile is_term_char (e @ rest))"
    using c by (simp add: group_step_def e)
  then have "group_step (e @ rest) = Some (e, rest)"
    by (simp add: takeWhile_all[OF assms(1) r])
  then show ?thesis
    by (simp add: group_plus_def group_star_stop[OF assms(3)])
qed

lemma match_all_space: "is_space c \<Longrightarrow> match_all (c # r) = match_all r"
  by (simp add: match_all.simps group_plus_def group_step_space)

lemma match_all_term:
  assumes "list_all is_term_char e" "e \<noteq> []" "rest = [] \<or> is_space (hd rest)"
  shows "match_all (e @ rest) = e # match_all rest"
proof -
  obtain c e' where e: "e = c # e'" using assms(2) by (cases e) auto
  have "match_all ((c # e') @ rest) = e # match_all rest"
    using group_plus_term[OF assms] by (simp add: e match_all.simps)
  then show ?thesis by (simp add: e)
qed

lemma match_all_two:
  assumes "list_all is_term_char e1" "e1 \<noteq> []" "list_all is_term_char e2" "e2 \<noteq> []"
    and "is_space c"
  shows "match_all (e1 @ c # e2) = [e1, e2]"
proof -
  have "match_all (e1 @ c # e2) = e1 # match_all (c # e2)"
    using assms by (intro match_all_term) simp_all
  also have "match_all (c # e2) = match_all (e2 @ [])"
    using assms(5) by (simp add: match_all_space)
  also have "\<dots> = e2 # match_all []"
    using assms by (intro match_all_term) simp_all
  finally show ?thesis by (simp add: match_all.simps)
qed

lemma match_all_one:
  assumes "list_all is_term_char e" "e \<noteq> []"
  shows "match_all e = [e]"
  using match_all_term[OF assms, of "[]"] by (simp add: match_all.simps)

lemma replace_char_append: "replace_char c r (a @ b) = replace_char c r a @ replace_char c r b"
  by (simp add: replace_char_def)

lemma expand_term_append: "expand_term (a @ b) = expand_term a @ expand_term b"
  by (simp add: expand_term_def replace_char_append)

lemma expand_term_Nil [simp]: "expand_term [] = []"
  by (simp add: expand_term_def replace_char_def)

lemma meta_not_glob: "is_meta c \<Longrightarrow> c \<noteq> CHR ''*'' \<and> c \<noteq> CHR ''?'' \<and> \<not> is_quote c"
  by (auto simp: is_meta_def is_quote_def)

lemma expand_escaped_char:
  assumes "\<not> is_quote c"
  shows "expand_term (if is_meta c then [backslash, c] else [c]) = glob_source c"
proof (cases "is_meta c")
  case True
  then show ?thesis
    using meta_not_glob[OF True]
    by (simp add: expand_term_def replace_char_def glob_source_def is_quote_def)
next
  case False
  then show ?thesis
    using assms
    by (simp add: expand_term_def replace_char_def glob_source_def is_quote_def)
qed

lemma expand_escape_meta:
  "list_all (\<lambda>c. \<not> is_quote c) g \<Longrightarrow> expand_term (escape_meta g) = concat (map glob_source g)"
proof (induction g)
  case Nil
  then show ?case by simp
next
  case (Cons c g)
  then have "\<not> is_quote c" and "expand_term (escape_meta g) = concat (map glob_source g)"
    by simp_all
  then show ?case
    by (simp add: escape_meta_Cons expand_term_append expand_escaped_char del: append.simps)
qed

lemma parse_atom_glob_source:
  "parse_atom (glob_source c @ cont) = Some (atom_of c, cont)"
proof (cases "is_meta c")
  case True
  then have "is_syntax_char c" by (auto simp: is_meta_def is_syntax_char_def)
  then show ?thesis
    using True meta_not_glob[OF True]
    by (simp add: glob_source_def atom_of_def parse_atom_def)
next
  case False
  then have n: "c \<noteq> backslash" "c \<noteq> CHR ''.''" by (auto simp: is_meta_def)
  show ?thesis
  proof (cases "c = CHR ''*'' \<or> c = CHR ''?''")
    case True
    then show ?thesis
      using False by (auto simp: glob_source_def atom_of_def parse_atom_def)
  next
    case g: False
    then have "\<not> is_syntax_char c"
      using False by (auto simp: is_meta_def is_syntax_char_def)
    then show ?thesis
      using False g n by (simp add: glob_source_def atom_of_def parse_atom_def)
  qed
qed

lemma glob_source_head: "\<exists>d r. glob_source c = d # r \<and> d \<noteq> CHR '')''"
  by (auto simp: glob_source_def is_meta_def)

lemma parse_atoms_close: "parse_atoms (CHR '')'' # rest) = Some ([], CHR '')'' # rest)"
  by (simp add: parse_atoms.simps)

lemma parse_atoms_step:
  assumes "parse_atom (d # r) = Some (a, r')" "d \<noteq> CHR '')''"
  shows "parse_atoms (d # r) = map_option (\<lambda>(as, x). (a # as, x)) (parse_atoms r')"
  using assms by (subst parse_atoms.simps) (simp split: option.splits)

lemma parse_atoms_glob:
  "parse_atoms (concat (map glob_source g) @ CHR '')'' # rest)
     = Some (map atom_of g, CHR '')'' # rest)"
proof (induction g)
  case Nil
  then show ?case by (simp add: parse_atoms_close)
next
  case (Cons c g)
  obtain d r where dr: "glob_source c = d # r" "d \<noteq> CHR '')''"
    using glob_source_head by blast
  let ?cont = "concat (map glob_source g) @ CHR '')'' # rest"
  have "parse_atom (d # r @ ?cont) = Some (atom_of c, ?cont)"
    using parse_atom_glob_source[of c ?cont] dr(1) by simp
  then have "parse_atoms (d # r @ ?cont)
               = map_option (\<lambda>(as, x). (atom_of c # as, x)) (parse_atoms ?cont)"
    using dr(2) by (rule parse_atoms_step)
  then show ?case using Cons.IH dr(1) by simp
qed

lemma parse_lookahead:
  "parse_atoms (''.*'' @ concat (map glob_source g) @ CHR '')'' # rest)
     = Some (DotStar # map atom_of g, CHR '')'' # rest)"
proof -
  let ?cont = "concat (map glob_source g) @ CHR '')'' # rest"
  have "parse_atom (CHR ''.'' # CHR ''*'' # ?cont) = Some (DotStar, ?cont)"
    by (simp add: parse_atom_def)
  then have "parse_atoms (CHR ''.'' # CHR ''*'' # ?cont)
               = map_option (\<lambda>(as, x). (DotStar # as, x)) (parse_atoms ?cont)"
    by (rule parse_atoms_step) simp
  then show ?thesis by (simp add: parse_atoms_glob)
qed

lemma parse_items_tail: "parse_items ''.*'' = Some [Plain DotStar]"
  by (simp add: parse_items.simps parse_atom_def)

lemma parse_items_lookahead:
  "parse_items (''(?=.*'' @ concat (map glob_source g) @ CHR '')'' # rest)
     = map_option (\<lambda>items. Lookahead (DotStar # map atom_of g) # items) (parse_items rest)"
  using parse_lookahead[of g rest]
  by (subst parse_items.simps) (simp split: option.splits)

lemma escape_meta_spaces: "list_all is_space w \<Longrightarrow> escape_meta w = w"
  by (induction w) (auto simp: escape_meta_Cons is_space_def is_meta_def)

lemma dropWhile_spaces:
  assumes "list_all is_space w" "x = [] \<or> \<not> is_space (hd x)"
  shows "dropWhile is_space (w @ x) = x"
  using takeWhile_all(2)[OF assms] .

lemma trim_spaces:
  assumes "list_all is_space w0" "list_all is_space w2"
    and "x \<noteq> []" "\<not> is_space (hd x)" "\<not> is_space (last x)"
  shows "trim (w0 @ x @ w2) = x"
proof -
  have a: "dropWhile is_space (w0 @ x @ w2) = x @ w2"
    using assms by (intro dropWhile_spaces) simp_all
  have "list_all is_space (rev w2)" using assms(2) by (simp add: list_all_iff)
  moreover have "rev x = [] \<or> \<not> is_space (hd (rev x))" using assms(3,5) by (simp add: hd_rev)
  ultimately have b: "dropWhile is_space (rev w2 @ rev x) = rev x"
    by (rule dropWhile_spaces)
  show ?thesis by (simp add: trim_def a b)
qed

lemma match_all_spaces: "list_all is_space w \<Longrightarrow> match_all (w @ r) = match_all r"
  by (induction w) (simp_all add: match_all_space)

lemma term_chars_ends:
  assumes "list_all is_term_char e" "e \<noteq> []"
  shows "\<not> is_space (hd e)" "\<not> is_space (last e)"
  using assms by (auto simp: list_all_iff is_term_char_def)

lemma term_char_not_quote: "list_all is_term_char g \<Longrightarrow> list_all (\<lambda>c. \<not> is_quote c) g"
  by (simp add: list_all_iff is_term_char_def)

lemma lookahead_source:
  "''(?=.*'' @ t @ '')'' = ''(?=.*'' @ t @ CHR '')'' # []"
  by simp

lemma getSearchRegex_two_terms:
  assumes g1: "list_all is_term_char g1" "g1 \<noteq> []"
    and g2: "list_all is_term_char g2" "g2 \<noteq> []"
    and w: "list_all is_space w0" "list_all is_space w1" "w1 \<noteq> []" "list_all is_space w2"
  shows "getSearchRegex (w0 @ g1 @ w1 @ g2 @ w2) =
    \<lparr>source = ''(?=.*'' @ concat (map glob_source g1) @ '')''
             @ ''(?=.*'' @ concat (map glob_source g2) @ '')'' @ ''.*'',
     ignoreCase = True\<rparr>"
proof -
  let ?e1 = "escape_meta g1" and ?e2 = "escape_meta g2"
  have e1: "list_all is_term_char ?e1" "?e1 \<noteq> []"
    using g1 by (simp_all add: escape_meta_term_chars escape_meta_empty_iff)
  have e2: "list_all is_term_char ?e2" "?e2 \<noteq> []"
    using g2 by (simp_all add: escape_meta_term_chars escape_meta_empty_iff)
  let ?x = "?e1 @ w1 @ ?e2"
  have esc: "escape_meta (w0 @ g1 @ w1 @ g2 @ w2) = w0 @ ?x @ w2"
    using w by (simp add: escape_meta_append escape_meta_spaces)
  have hx: "hd ?x = hd ?e1" using e1(2) by simp
  have lx: "last ?x = last ?e2" using e2(2) by simp
  have nx1: "?x \<noteq> []" using e1(2) by simp
  have nx2: "\<not> is_space (hd ?x)" unfolding hx by (rule term_chars_ends(1)[OF e1])
  have nx3: "\<not> is_space (last ?x)" unfolding lx by (rule term_chars_ends(2)[OF e2])
  have "trim (w0 @ ?x @ w2) = ?x"
    using w(1,4) nx1 nx2 nx3 by (rule trim_spaces)
  moreover have "match_all ?x = [?e1, ?e2]"
  proof -
    obtain c w' where w1: "w1 = c # w'" using w(3) by (cases w1) auto
    have "match_all (?e1 @ w1 @ ?e2) = ?e1 # match_all (w1 @ ?e2)"
      using e1 w(2) by (intro match_all_term) (simp_all add: w1)
    also have "match_all (w1 @ ?e2) = match_all ?e2"
      using w(2) by (rule match_all_spaces)
    also have "\<dots> = [?e2]" using e2 by (rule match_all_one)
    finally show ?thesis .
  qed
  ultimately have terms: "match_all (trim (escape_meta (w0 @ g1 @ w1 @ g2 @ w2))) = [?e1, ?e2]"
    by (simp only: esc)
  have ne: "w0 @ g1 @ w1 @ g2 @ w2 \<noteq> []" using g1(2) by simp
  have x1: "expand_term ?e1 = concat (map glob_source g1)"
    by (rule expand_escape_meta[OF term_char_not_quote[OF g1(1)]])
  have x2: "expand_term ?e2 = concat (map glob_source g2)"
    by (rule expand_escape_meta[OF term_char_not_quote[OF g2(1)]])
  show ?thesis
    unfolding getSearchRegex_def Let_def terms
    using ne by (simp add: x1 x2)
qed

lemma getSearchRegex_one_term:
  assumes g: "list_all is_term_char g" "g \<noteq> []"
    and w: "list_all is_space w0" "list_all is_space w2"
  shows "getSearchRegex (w0 @ g @ w2) =
    \<lparr>source = ''(?=.*'' @ concat (map glob_source g) @ '')'' @ ''.*'', ignoreCase = True\<rparr>"
proof -
  let ?e = "escape_meta g"
  have e: "list_all is_term_char ?e" "?e \<noteq> []"
    using g by (simp_all add: escape_meta_term_chars escape_meta_empty_iff)
  have esc: "escape_meta (w0 @ g @ w2) = w0 @ ?e @ w2"
    using w by (simp add: escape_meta_append escape_meta_spaces)
  have "trim (w0 @ ?e @ w2) = ?e"
    using w e(2) term_chars_ends[OF e] by (intro trim_spaces)
  moreover have "match_all ?e = [?e]" using e by (rule match_all_one)
  ultimately have terms: "match_all (trim (escape_meta (w0 @ g @ w2))) = [?e]"
    by (simp only: esc)
  have ne: "w0 @ g @ w2 \<noteq> []" using g(2) by simp
  have x: "expand_term ?e = concat (map glob_source g)"
    by (rule expand_escape_meta[OF term_char_not_quote[OF g(1)]])
  show ?thesis
    unfolding getSearchRegex_def Let_def terms
    using ne by (simp add: x)
qed

lemma parse_two_terms:
  "parse_items (''(?=.*'' @ concat (map glob_source g1) @ '')''
             @ ''(?=.*'' @ concat (map glob_source g2) @ '')'' @ ''.*'')
   = Some [Lookahead (DotStar # map atom_of g1), Lookahead (DotStar # map atom_of g2),
           Plain DotStar]"
proof -
  have "parse_items (''(?=.*'' @ concat (map glob_source g2) @ CHR '')'' # ''.*'')
        = Some [Lookahead (DotStar # map atom_of g2), Plain DotStar]"
    by (simp only: parse_items_lookahead parse_items_tail) simp
  then have "parse_items (''(?=.*'' @ concat (map glob_source g1) @ CHR '')'' #
                (''(?=.*'' @ concat (map glob_source g2) @ CHR '')'' # ''.*''))
        = Some [Lookahead (DotStar # map atom_of g1), Lookahead (DotStar # map atom_of g2),
           Plain DotStar]"
    by (simp only: parse_items_lookahead) simp
  then show ?thesis by simp
qed

lemma parse_one_term:
  "parse_items (''(?=.*'' @ concat (map glob_source g) @ '')'' @ ''.*'')
   = Some [Lookahead (DotStar # map atom_of g), Plain DotStar]"
proof -
  have "parse_items (''(?=.*'' @ concat (map glob_source g) @ CHR '')'' # ''.*'')
        = Some [Lookahead (DotStar # map atom_of g), Plain DotStar]"
    by (simp only: parse_items_lookahead parse_items_tail) simp
  then show ?thesis by simp
qed

lemma match_dotstar:
  "match_atoms f (DotStar # as) s \<longleftrightarrow>
     (\<exists>r v. s = r @ v \<and> (\<forall>c \<in> set r. \<not> line_terminator c) \<and> match_atoms f as v)"
proof (induction s)
  case Nil
  then show ?case by simp
next
  case (Cons x xs)
  show ?case
  proof
    assume "match_atoms f (DotStar # as) (x # xs)"
    then consider "\<not> line_terminator x" "match_atoms f (DotStar # as) xs"
      | "match_atoms f as (x # xs)" by auto
    then show "\<exists>r v. x # xs = r @ v \<and> (\<forall>c \<in> set r. \<not> line_terminator c) \<and> match_atoms f as v"
    proof cases
      case 1
      then obtain r v where "xs = r @ v" "\<forall>c \<in> set r. \<not> line_terminator c" "match_atoms f as v"
        using Cons.IH by blast
      then have "x # xs = (x # r) @ v \<and> (\<forall>c \<in> set (x # r). \<not> line_terminator c)
                   \<and> match_atoms f as v"
        using 1(1) by simp
      then show ?thesis by blast
    next
      case 2
      then have "x # xs = [] @ (x # xs) \<and> (\<forall>c \<in> set ([]::string). \<not> line_terminator c)
                   \<and> match_atoms f as (x # xs)" by simp
      then show ?thesis by blast
    qed
  next
    assume "\<exists>r v. x # xs = r @ v \<and> (\<forall>c \<in> set r. \<not> line_terminator c) \<and> match_atoms f as v"
    then obtain r v where rv: "x # xs = r @ v" "\<forall>c \<in> set r. \<not> line_terminator c"
      "match_atoms f as v" by blast
    show "match_atoms f (DotStar # as) (x # xs)"
    proof (cases r)
      case Nil
      then have "v = x # xs" using rv(1) by simp
      then show ?thesis using rv(3) by simp
    next
      case (Cons y r')
      then have "xs = r' @ v" "\<forall>c \<in> set r'. \<not> line_terminator c" "\<not> line_terminator x"
        using rv by auto
      then have "match_atoms f (DotStar # as) xs" using rv(3) Cons.IH by blast
      then show ?thesis using \<open>\<not> line_terminator x\<close> by simp
    qed
  qed
qed

lemma match_dot:
  "match_atoms f (Dot # as) s \<longleftrightarrow>
     (\<exists>c v. s = c # v \<and> \<not> line_terminator c \<and> match_atoms f as v)"
  by (cases s) auto

lemma match_chars:
  "match_atoms f (map Chr t @ as) s \<longleftrightarrow>
     (\<exists>p v. s = p @ v \<and> map f p = map f t \<and> match_atoms f as v)"
proof (induction t arbitrary: s)
  case Nil
  then show ?case by simp
next
  case (Cons c t)
  show ?case
  proof (cases s)
    case Nil
    then show ?thesis by simp
  next
    case (Cons x xs)
    have "match_atoms f (map Chr (c # t) @ as) (x # xs)
            \<longleftrightarrow> f x = f c \<and> (\<exists>p v. xs = p @ v \<and> map f p = map f t \<and> match_atoms f as v)"
      using Cons.IH by simp
    also have "\<dots> \<longleftrightarrow> (\<exists>p v. x # xs = p @ v \<and> map f p = map f (c # t) \<and> match_atoms f as v)"
    proof
      assume "f x = f c \<and> (\<exists>p v. xs = p @ v \<and> map f p = map f t \<and> match_atoms f as v)"
      then obtain p v where "f x = f c" "xs = p @ v" "map f p = map f t" "match_atoms f as v"
        by blast
      then have "x # xs = (x # p) @ v \<and> map f (x # p) = map f (c # t) \<and> match_atoms f as v"
        by simp
      then show "\<exists>p v. x # xs = p @ v \<and> map f p = map f (c # t) \<and> match_atoms f as v"
        by blast
    next
      assume "\<exists>p v. x # xs = p @ v \<and> map f p = map f (c # t) \<and> match_atoms f as v"
      then obtain p v where pv: "x # xs = p @ v" "map f p = map f (c # t)" "match_atoms f as v"
        by blast
      then obtain y p' where p: "p = y # p'" by (cases p) auto
      then have "f x = f c" "xs = p' @ v" "map f p' = map f t" using pv by auto
      then show "f x = f c \<and> (\<exists>p v. xs = p @ v \<and> map f p = map f t \<and> match_atoms f as v)"
        using pv(3) by blast
    qed
    finally show ?thesis using Cons by simp
  qed
qed

lemma match_plain_dotstar: "match_items f [Plain DotStar] s"
  by (induction s) simp_all

lemma search_from_iff:
  "search_from f items s \<longleftrightarrow> (\<exists>u v. s = u @ v \<and> match_items f items v)"
proof (induction s)
  case Nil
  then show ?case by simp
next
  case (Cons x xs)
  show ?case
  proof
    assume "search_from f items (x # xs)"
    then consider "match_items f items (x # xs)" | "search_from f items xs" by auto
    then show "\<exists>u v. x # xs = u @ v \<and> match_items f items v"
    proof cases
      case 1
      then have "x # xs = [] @ (x # xs) \<and> match_items f items (x # xs)" by simp
      then show ?thesis by blast
    next
      case 2
      then obtain u v where "xs = u @ v" "match_items f items v" using Cons.IH by blast
      then have "x # xs = (x # u) @ v \<and> match_items f items v" by simp
      then show ?thesis by blast
    qed
  next
    assume "\<exists>u v. x # xs = u @ v \<and> match_items f items v"
    then obtain u v where uv: "x # xs = u @ v" "match_items f items v" by blast
    show "search_from f items (x # xs)"
    proof (cases u)
      case Nil
      then have "v = x # xs" using uv(1) by simp
      then show ?thesis using uv(2) by simp
    next
      case (Cons y u')
      then have "xs = u' @ v" using uv by simp
      then show ?thesis using uv(2) Cons.IH by auto
    qed
  qed
qed

lemma sublist_map_iff:
  "sublist (map f t) (map f s) \<longleftrightarrow> (\<exists>a p b. s = a @ p @ b \<and> map f p = map f t)"
proof
  assume "sublist (map f t) (map f s)"
  then obtain ps ss where "map f s = ps @ map f t @ ss" by (auto simp: sublist_def)
  then have "\<exists>a r. s = a @ r \<and> ps = map f a \<and> map f t @ ss = map f r"
    by (simp only: map_eq_append_conv)
  then obtain a r where ar: "s = a @ r" "map f t @ ss = map f r" by blast
  from ar(2) have "\<exists>p b. r = p @ b \<and> map f t = map f p \<and> ss = map f b"
    by (simp only: append_eq_map_conv)
  then obtain p b where "r = p @ b" "map f p = map f t" by auto
  then show "\<exists>a p b. s = a @ p @ b \<and> map f p = map f t" using ar(1) by blast
next
  assume "\<exists>a p b. s = a @ p @ b \<and> map f p = map f t"
  then obtain a p b where "s = a @ p @ b" "map f p = map f t" by blast
  then have "map f s = map f a @ map f t @ map f b" by simp
  then show "sublist (map f t) (map f s)" unfolding sublist_def by blast
qed

lemma atom_of_literal: "list_all literal_char t \<Longrightarrow> map atom_of t = map Chr t"
  by (induction t) (simp_all add: literal_char_def atom_of_def)

lemma literal_is_term: "list_all literal_char t \<Longrightarrow> list_all is_term_char t"
  by (simp add: list_all_iff literal_char_def)

lemma lookahead_literal:
  "match_atoms f (DotStar # map Chr t) v \<longleftrightarrow>
     (\<exists>r p x. v = r @ p @ x \<and> (\<forall>c \<in> set r. \<not> line_terminator c) \<and> map f p = map f t)"
proof -
  have a: "match_atoms f (map Chr t) w \<longleftrightarrow> (\<exists>p x. w = p @ x \<and> map f p = map f t)" for w
    using match_chars[of f t "[]" w] by simp
  show ?thesis
  proof
    assume "match_atoms f (DotStar # map Chr t) v"
    then obtain r w where rw: "v = r @ w" "\<forall>c \<in> set r. \<not> line_terminator c"
      "match_atoms f (map Chr t) w"
      unfolding match_dotstar by blast
    from rw(3) obtain p x where "w = p @ x" "map f p = map f t" unfolding a by blast
    then have "v = r @ p @ x \<and> (\<forall>c \<in> set r. \<not> line_terminator c) \<and> map f p = map f t"
      using rw(1,2) by simp
    then show "\<exists>r p x. v = r @ p @ x \<and> (\<forall>c \<in> set r. \<not> line_terminator c)
                 \<and> map f p = map f t"
      by blast
  next
    assume "\<exists>r p x. v = r @ p @ x \<and> (\<forall>c \<in> set r. \<not> line_terminator c) \<and> map f p = map f t"
    then obtain r p x where rpx: "v = r @ p @ x" "\<forall>c \<in> set r. \<not> line_terminator c"
      "map f p = map f t" by blast
    have "match_atoms f (map Chr t) (p @ x)" unfolding a using rpx(3) by blast
    then have "v = r @ (p @ x) \<and> (\<forall>c \<in> set r. \<not> line_terminator c)
                 \<and> match_atoms f (map Chr t) (p @ x)"
      using rpx(1,2) by simp
    then show "match_atoms f (DotStar # map Chr t) v" unfolding match_dotstar by blast
  qed
qed

lemma search_two_literals:
  assumes "\<forall>c \<in> set s. \<not> line_terminator c"
  shows "search_from f [Lookahead (DotStar # map Chr t1), Lookahead (DotStar # map Chr t2),
                        Plain DotStar] s
         \<longleftrightarrow> sublist (map f t1) (map f s) \<and> sublist (map f t2) (map f s)"
    (is "?L \<longleftrightarrow> ?R")
proof
  assume ?L
  then obtain u v where uv: "s = u @ v"
    "match_atoms f (DotStar # map Chr t1) v" "match_atoms f (DotStar # map Chr t2) v"
    unfolding search_from_iff by auto
  from uv(2) obtain r1 p1 x1 where 1: "v = r1 @ p1 @ x1" "map f p1 = map f t1"
    unfolding lookahead_literal by blast
  from uv(3) obtain r2 p2 x2 where 2: "v = r2 @ p2 @ x2" "map f p2 = map f t2"
    unfolding lookahead_literal by blast
  have "s = (u @ r1) @ p1 @ x1" "s = (u @ r2) @ p2 @ x2" using uv(1) 1(1) 2(1) by simp_all
  then show ?R unfolding sublist_map_iff using 1(2) 2(2) by blast
next
  assume ?R
  then obtain a1 p1 b1 a2 p2 b2 where
    1: "s = a1 @ p1 @ b1" "map f p1 = map f t1" and 2: "s = a2 @ p2 @ b2" "map f p2 = map f t2"
    unfolding sublist_map_iff by blast
  have "\<forall>c \<in> set a1. \<not> line_terminator c" using assms 1(1) by simp
  moreover have "\<forall>c \<in> set a2. \<not> line_terminator c" using assms 2(1) by simp
  ultimately have "\<forall>c \<in> set a1. \<not> line_terminator c" "\<forall>c \<in> set a2. \<not> line_terminator c"
    by blast+
  then have "match_atoms f (DotStar # map Chr t1) s" "match_atoms f (DotStar # map Chr t2) s"
    unfolding lookahead_literal using 1 2 by blast+
  then have "match_items f [Lookahead (DotStar # map Chr t1), Lookahead (DotStar # map Chr t2),
                        Plain DotStar] s"
    using match_plain_dotstar by simp
  then have "s = [] @ s \<and> match_items f [Lookahead (DotStar # map Chr t1),
                Lookahead (DotStar # map Chr t2), Plain DotStar] s" by simp
  then show ?L unfolding search_from_iff by blast
qed

lemma test_two_terms:
  assumes "list_all is_term_char g1" "g1 \<noteq> []" "list_all is_term_char g2" "g2 \<noteq> []"
    and "list_all is_space w0" "list_all is_space w1" "w1 \<noteq> []" "list_all is_space w2"
  shows "regexp_test (getSearchRegex (w0 @ g1 @ w1 @ g2 @ w2)) s
         = Some (search_from canonicalize
                   [Lookahead (DotStar # map atom_of g1), Lookahead (DotStar # map atom_of g2),
                    Plain DotStar] s)"
  unfolding regexp_test_def getSearchRegex_two_terms[OF assms]
  by (simp only: regexp.simps parse_two_terms option.case if_True)

lemma test_one_term:
  assumes "list_all is_term_char g" "g \<noteq> []" "list_all is_space w0" "list_all is_space w2"
  shows "regexp_test (getSearchRegex (w0 @ g @ w2)) s
         = Some (search_from canonicalize [Lookahead (DotStar # map atom_of g), Plain DotStar] s)"
  unfolding regexp_test_def getSearchRegex_one_term[OF assms]
  by (simp only: regexp.simps parse_one_term option.case if_True)

lemma match_literal:
  "match_atoms f (map Chr t) w \<longleftrightarrow> (\<exists>p x. w = p @ x \<and> map f p = map f t)"
  using match_chars[of f t "[]" w] by simp

lemma lookahead_star:
  "match_atoms f (DotStar # map Chr p @ DotStar # map Chr q) v \<longleftrightarrow>
     (\<exists>r0 p' r q' w. v = r0 @ p' @ r @ q' @ w \<and> (\<forall>c \<in> set r0. \<not> line_terminator c)
        \<and> map f p' = map f p \<and> (\<forall>c \<in> set r. \<not> line_terminator c) \<and> map f q' = map f q)"
  (is "?L \<longleftrightarrow> ?R")
proof
  assume ?L
  then obtain r0 v1 where 1: "v = r0 @ v1" "\<forall>c \<in> set r0. \<not> line_terminator c"
    "match_atoms f (map Chr p @ DotStar # map Chr q) v1"
    unfolding match_dotstar[of f "map Chr p @ DotStar # map Chr q"] by blast
  from 1(3) obtain p' v2 where 2: "v1 = p' @ v2" "map f p' = map f p"
    "match_atoms f (DotStar # map Chr q) v2"
    unfolding match_chars by blast
  from 2(3) obtain r q' w where 3: "v2 = r @ q' @ w" "\<forall>c \<in> set r. \<not> line_terminator c"
    "map f q' = map f q"
    unfolding lookahead_literal by blast
  have "v = r0 @ p' @ r @ q' @ w" using 1(1) 2(1) 3(1) by simp
  then show ?R using 1(2) 2(2) 3(2,3) by blast
next
  assume ?R
  then obtain r0 p' r q' w where h: "v = r0 @ p' @ r @ q' @ w"
    "\<forall>c \<in> set r0. \<not> line_terminator c" "map f p' = map f p"
    "\<forall>c \<in> set r. \<not> line_terminator c" "map f q' = map f q"
    by blast
  have "match_atoms f (DotStar # map Chr q) (r @ q' @ w)"
    unfolding lookahead_literal using h(4,5) by blast
  then have "match_atoms f (map Chr p @ DotStar # map Chr q) (p' @ r @ q' @ w)"
    unfolding match_chars using h(3) by blast
  then have "v = r0 @ (p' @ r @ q' @ w) \<and> (\<forall>c \<in> set r0. \<not> line_terminator c)
      \<and> match_atoms f (map Chr p @ DotStar # map Chr q) (p' @ r @ q' @ w)"
    using h(1,2) by simp
  then show ?L unfolding match_dotstar[of f "map Chr p @ DotStar # map Chr q"] by blast
qed

lemma lookahead_question:
  "match_atoms f (DotStar # map Chr p @ Dot # map Chr q) v \<longleftrightarrow>
     (\<exists>r0 p' c q' w. v = r0 @ p' @ c # q' @ w \<and> (\<forall>c \<in> set r0. \<not> line_terminator c)
        \<and> map f p' = map f p \<and> \<not> line_terminator c \<and> map f q' = map f q)"
  (is "?L \<longleftrightarrow> ?R")
proof
  assume ?L
  then obtain r0 v1 where 1: "v = r0 @ v1" "\<forall>c \<in> set r0. \<not> line_terminator c"
    "match_atoms f (map Chr p @ Dot # map Chr q) v1"
    unfolding match_dotstar[of f "map Chr p @ Dot # map Chr q"] by blast
  from 1(3) obtain p' v2 where 2: "v1 = p' @ v2" "map f p' = map f p"
    "match_atoms f (Dot # map Chr q) v2"
    unfolding match_chars by blast
  from 2(3) obtain c v3 where 3: "v2 = c # v3" "\<not> line_terminator c"
    "match_atoms f (map Chr q) v3"
    unfolding match_dot by blast
  from 3(3) obtain q' w where 4: "v3 = q' @ w" "map f q' = map f q"
    unfolding match_literal by blast
  have "v = r0 @ p' @ c # q' @ w" using 1(1) 2(1) 3(1) 4(1) by simp
  then show ?R using 1(2) 2(2) 3(2) 4(2) by blast
next
  assume ?R
  then obtain r0 p' c q' w where h: "v = r0 @ p' @ c # q' @ w"
    "\<forall>c \<in> set r0. \<not> line_terminator c" "map f p' = map f p"
    "\<not> line_terminator c" "map f q' = map f q"
    by blast
  have "match_atoms f (map Chr q) (q' @ w)" unfolding match_literal using h(5) by blast
  then have "match_atoms f (Dot # map Chr q) (c # q' @ w)" using h(4) by simp
  then have "match_atoms f (map Chr p @ Dot # map Chr q) (p' @ c # q' @ w)"
    unfolding match_chars using h(3) by blast
  then have "v = r0 @ (p' @ c # q' @ w) \<and> (\<forall>c \<in> set r0. \<not> line_terminator c)
      \<and> match_atoms f (map Chr p @ Dot # map Chr q) (p' @ c # q' @ w)"
    using h(1,2) by simp
  then show ?L unfolding match_dotstar[of f "map Chr p @ Dot # map Chr q"] by blast
qed

lemma search_one_lookahead:
  "search_from f [Lookahead as, Plain DotStar] s \<longleftrightarrow> (\<exists>u v. s = u @ v \<and> match_atoms f as v)"
  unfolding search_from_iff using match_plain_dotstar by simp

lemma search_star:
  "search_from f [Lookahead (DotStar # map Chr p @ DotStar # map Chr q), Plain DotStar] s \<longleftrightarrow>
     (\<exists>u p' r q' w. s = u @ p' @ r @ q' @ w \<and> map f p' = map f p
        \<and> (\<forall>c \<in> set r. \<not> line_terminator c) \<and> map f q' = map f q)"
  (is "?L \<longleftrightarrow> ?R")
proof
  assume ?L
  then obtain u v where uv: "s = u @ v"
    "match_atoms f (DotStar # map Chr p @ DotStar # map Chr q) v"
    unfolding search_one_lookahead by blast
  from uv(2) obtain r0 p' r q' w where h: "v = r0 @ p' @ r @ q' @ w" "map f p' = map f p"
    "\<forall>c \<in> set r. \<not> line_terminator c" "map f q' = map f q"
    unfolding lookahead_star by blast
  have "s = (u @ r0) @ p' @ r @ q' @ w" using uv(1) h(1) by simp
  then show ?R using h(2,3,4) by blast
next
  assume ?R
  then obtain u p' r q' w where h: "s = u @ p' @ r @ q' @ w" "map f p' = map f p"
    "\<forall>c \<in> set r. \<not> line_terminator c" "map f q' = map f q"
    by blast
  have "p' @ r @ q' @ w = [] @ p' @ r @ q' @ w \<and> (\<forall>c \<in> set ([]::string). \<not> line_terminator c)"
    by simp
  then have "match_atoms f (DotStar # map Chr p @ DotStar # map Chr q) (p' @ r @ q' @ w)"
    unfolding lookahead_star using h(2,3,4) by blast
  then show ?L unfolding search_one_lookahead using h(1) by blast
qed

lemma search_question:
  "search_from f [Lookahead (DotStar # map Chr p @ Dot # map Chr q), Plain DotStar] s \<longleftrightarrow>
     (\<exists>u p' c q' w. s = u @ p' @ c # q' @ w \<and> map f p' = map f p
        \<and> \<not> line_terminator c \<and> map f q' = map f q)"
  (is "?L \<longleftrightarrow> ?R")
proof
  assume ?L
  then obtain u v where uv: "s = u @ v"
    "match_atoms f (DotStar # map Chr p @ Dot # map Chr q) v"
    unfolding search_one_lookahead by blast
  from uv(2) obtain r0 p' c q' w where h: "v = r0 @ p' @ c # q' @ w" "map f p' = map f p"
    "\<not> line_terminator c" "map f q' = map f q"
    unfolding lookahead_question by blast
  have "s = (u @ r0) @ p' @ c # q' @ w" using uv(1) h(1) by simp
  then show ?R using h(2,3,4) by blast
next
  assume ?R
  then obtain u p' c q' w where h: "s = u @ p' @ c # q' @ w" "map f p' = map f p"
    "\<not> line_terminator c" "map f q' = map f q"
    by blast
  have "p' @ c # q' @ w = [] @ p' @ c # q' @ w \<and> (\<forall>c \<in> set ([]::string). \<not> line_terminator c)"
    by simp
  then have "match_atoms f (DotStar # map Chr p @ Dot # map Chr q) (p' @ c # q' @ w)"
    unfolding lookahead_question using h(2,3,4) by blast
  then show ?L unfolding search_one_lookahead using h(1) by blast
qed

lemma term_char_glob: "is_term_char CHR ''*''" "is_term_char CHR ''?''"
  by (simp_all add: is_term_char_def is_space_def is_quote_def)

lemma atoms_star:
  assumes "list_all literal_char p" "list_all literal_char q"
  shows "map atom_of (p @ ''*'' @ q) = map Chr p @ DotStar # map Chr q"
    and "map atom_of (p @ ''?'' @ q) = map Chr p @ Dot # map Chr q"
  using atom_of_literal[OF assms(1)] atom_of_literal[OF assms(2)] by (simp_all add: atom_of_def)

lemma test_star:
  assumes "list_all literal_char p" "list_all literal_char q"
  shows "regexp_test (getSearchRegex (p @ ''*'' @ q)) s =
      Some (\<exists>u p' r q' w. s = u @ p' @ r @ q' @ w \<and> same_ignoring_case p' p
              \<and> no_line_terminator r \<and> same_ignoring_case q' q)"
proof -
  have "regexp_test (getSearchRegex ([] @ (p @ ''*'' @ q) @ [])) s
         = Some (search_from canonicalize
                   [Lookahead (DotStar # map atom_of (p @ ''*'' @ q)), Plain DotStar] s)"
    using literal_is_term[OF assms(1)] literal_is_term[OF assms(2)]
    by (intro test_one_term) (simp_all add: term_char_glob)
  then show ?thesis
    by (simp only: atoms_star[OF assms] search_star same_ignoring_case_def
        no_line_terminator_def list_all_iff append_Nil append_Nil2)
qed

lemma test_question:
  assumes "list_all literal_char p" "list_all literal_char q"
  shows "regexp_test (getSearchRegex (p @ ''?'' @ q)) s =
      Some (\<exists>u p' c q' w. s = u @ p' @ c # q' @ w \<and> same_ignoring_case p' p
              \<and> \<not> line_terminator c \<and> same_ignoring_case q' q)"
proof -
  have "regexp_test (getSearchRegex ([] @ (p @ ''?'' @ q) @ [])) s
         = Some (search_from canonicalize
                   [Lookahead (DotStar # map atom_of (p @ ''?'' @ q)), Plain DotStar] s)"
    using literal_is_term[OF assms(1)] literal_is_term[OF assms(2)]
    by (intro test_one_term) (simp_all add: term_char_glob)
  then show ?thesis
    by (simp only: atoms_star[OF assms] search_question same_ignoring_case_def
        append_Nil append_Nil2)
qed

lemma examples_a_star_c:
  "source (getSearchRegex ''a*c'') = ''(?=.*a.*c).*''"
  "regexp_test (getSearchRegex ''a*c'') ''abc'' = Some True"
  "regexp_test (getSearchRegex ''a*c'') ''ac'' = Some True"
  "regexp_test (getSearchRegex ''a*c'') ''abXc'' = Some True"
  "regexp_test (getSearchRegex ''a*c'') ''ab'' = Some False"
  by code_simp+

lemma examples_line_feed:
  "regexp_test (getSearchRegex ''a*c'') [CHR ''a'', CHR 0x0A, CHR ''c''] = Some False"
  "regexp_test (getSearchRegex ''a?c'') [CHR ''a'', CHR 0x0A, CHR ''c''] = Some False"
  "regexp_test (getSearchRegex ''a?c'') ''abc'' = Some True"
  "regexp_test (getSearchRegex ''a?c'') ''ac'' = Some False"
  "regexp_test (getSearchRegex ''a?c'') ''abbc'' = Some False"
  by code_simp+

lemma examples_two_terms:
  "regexp_test (getSearchRegex ''foo bar'') ''barXfoo'' = Some True"
  "regexp_test (getSearchRegex ''a*c b'') ''b abc'' = Some True"
  "\<not> sublist (map canonicalize ''a*c'') (map canonicalize ''b abc'')"
  "regexp_test (getSearchRegex ''foo bar'')
     [CHR ''b'', CHR ''a'', CHR ''r'', CHR 0x0A, CHR ''f'', CHR ''o'', CHR ''o''] = Some False"
  "sublist (map canonicalize ''foo'')
     (map canonicalize [CHR ''b'', CHR ''a'', CHR ''r'', CHR 0x0A, CHR ''f'', CHR ''o'', CHR ''o''])"
  "sublist (map canonicalize ''bar'')
     (map canonicalize [CHR ''b'', CHR ''a'', CHR ''r'', CHR 0x0A, CHR ''f'', CHR ''o'', CHR ''o''])"
  by code_simp+

lemma examples_glob_terms:
  "regexp_test (getSearchRegex ''a?c b'') ''b abc'' = Some True"
  "\<not> sublist (map canonicalize ''a?c'') (map canonicalize ''b abc'')"
  "regexp_test (getSearchRegex [dquote, CHR ''a'', dquote, CHR '' '', CHR ''b'']) ''b a'' = Some True"
  "\<not> sublist (map canonicalize [dquote, CHR ''a'', dquote]) (map canonicalize ''b a'')"
  by code_simp+

subsection \<open>Every search expression compiles\<close>

text \<open>
  Whatever the text of the search box, the source that \<open>getSearchRegex\<close> builds lies in
  the modelled fragment of the pattern syntax, so \<open>test\<close> always has a result.
\<close>

lemma meta_backslash: "is_meta backslash"
  by (simp add: is_meta_def)

lemma escaped_Cons: "\<not> is_meta c \<Longrightarrow> escaped (c # s) = escaped s"
  using meta_backslash by (cases s) auto

lemma escaped_backslash: "escaped (backslash # s) \<longleftrightarrow> (\<exists>d r. s = d # r \<and> is_meta d \<and> escaped r)"
  using meta_backslash by (cases s) auto

lemma escaped_escape_meta: "escaped (escape_meta raw)"
  by (induction raw) (simp_all add: escape_meta_Cons escaped_Cons)

lemma escaped_append: "escaped a \<Longrightarrow> escaped (a @ b) = escaped b"
  by (induction a rule: escaped.induct) (simp_all add: escaped_Cons split: if_splits)

lemma escaped_butlast: "escaped (a @ [c]) \<Longrightarrow> \<not> is_meta c \<Longrightarrow> escaped a"
  by (induction a rule: escaped.induct) (auto split: if_splits)

lemma escaped_drop_spaces: "list_all is_space w \<Longrightarrow> escaped (a @ w) \<Longrightarrow> escaped a"
proof (induction w rule: rev_induct)
  case Nil
  then show ?case by simp
next
  case (snoc c w)
  have "\<not> is_meta c" using snoc.prems(1) by (auto simp: is_space_def is_meta_def)
  moreover have "escaped ((a @ w) @ [c])" using snoc.prems(2) by simp
  ultimately have "escaped (a @ w)" by (rule escaped_butlast[rotated])
  then show ?case using snoc by simp
qed

lemma space_not_meta: "is_space c \<Longrightarrow> \<not> is_meta c"
  by (auto simp: is_space_def is_meta_def)

lemma escaped_dropWhile_space: "escaped s \<Longrightarrow> escaped (dropWhile is_space s)"
  by (induction s) (auto simp: escaped_Cons space_not_meta)

lemma escaped_trim: "escaped s \<Longrightarrow> escaped (trim s)"
proof -
  assume e: "escaped s"
  let ?d = "dropWhile is_space s"
  have "rev ?d = takeWhile is_space (rev ?d) @ dropWhile is_space (rev ?d)" by simp
  then have "?d = trim s @ rev (takeWhile is_space (rev ?d))"
    unfolding trim_def by (metis rev_append rev_rev_ident)
  moreover have "list_all is_space (rev (takeWhile is_space (rev ?d)))"
    by (simp add: list_all_iff) (meson set_takeWhileD)
  moreover have "escaped ?d" using e by (rule escaped_dropWhile_space)
  ultimately show ?thesis by (metis escaped_drop_spaces)
qed

lemma escaped_takeWhile:
  assumes "\<And>c. is_meta c \<Longrightarrow> P c"
  shows "escaped s \<Longrightarrow> escaped (takeWhile P s) \<and> escaped (dropWhile P s)"
proof (induction s rule: escaped.induct)
  case 1
  then show ?case by simp
next
  case (2 c)
  then show ?case by simp
next
  case (3 c d s)
  show ?case
  proof (cases "c = backslash")
    case True
    then have "is_meta d" "escaped s" using "3.prems" by simp_all
    then show ?thesis
      using True "3.IH"(1)[OF True] assms[OF meta_backslash] assms[of d] by simp
  next
    case False
    then have m: "\<not> is_meta c" "escaped (d # s)" using "3.prems" by simp_all
    then show ?thesis
      using "3.IH"(2)[OF False] "3.prems" by (simp add: escaped_Cons)
  qed
qed

lemma meta_term_char: "is_meta c \<Longrightarrow> is_term_char c"
  by (auto simp: is_meta_def is_term_char_def is_space_def is_quote_def)

lemma meta_not_quote: "is_meta c \<Longrightarrow> \<not> is_quote c"
  by (auto simp: is_meta_def is_quote_def)

lemma escaped_group_step:
  assumes "escaped s" "group_step s = Some (t, r)"
  shows "escaped t \<and> escaped r"
proof (cases s)
  case Nil
  then show ?thesis using assms(2) by (simp add: group_step_def)
next
  case (Cons c r0)
  show ?thesis
  proof (cases "is_term_char c")
    case True
    then have "t = takeWhile is_term_char s" "r = dropWhile is_term_char s"
      using assms(2) Cons by (simp_all add: group_step_def)
    then show ?thesis using escaped_takeWhile[of is_term_char s] meta_term_char assms(1) by simp
  next
    case False
    then have q: "is_quote c" using assms(2) Cons by (simp add: group_step_def split: if_splits)
    then have nm: "\<not> is_meta c" using meta_not_quote by blast
    obtain q' where d: "dropWhile (\<lambda>x. \<not> is_quote x) r0 = q' # r"
      and t: "t = c # takeWhile (\<lambda>x. \<not> is_quote x) r0 @ [q']"
      using assms(2) Cons False q by (auto simp: group_step_def split: list.splits)
    have e0: "escaped r0" using assms(1) Cons nm by (simp add: escaped_Cons)
    have tw: "escaped (takeWhile (\<lambda>x. \<not> is_quote x) r0)"
      and dw: "escaped (dropWhile (\<lambda>x. \<not> is_quote x) r0)"
      using escaped_takeWhile[of "\<lambda>x. \<not> is_quote x" r0] meta_not_quote e0 by simp_all
    have "is_quote q'" using d by (metis hd_dropWhile list.sel(1) list.simps(3))
    then have nq: "\<not> is_meta q'" using meta_not_quote by blast
    have "escaped r" using dw d nq by (simp add: escaped_Cons)
    moreover have "escaped t"
      unfolding t using nm nq tw by (simp add: escaped_Cons escaped_append)
    ultimately show ?thesis by simp
  qed
qed

lemma escaped_group_star: "escaped s \<Longrightarrow> group_star s = (t, r) \<Longrightarrow> escaped t \<and> escaped r"
proof (induction s arbitrary: t r rule: group_star.induct)
  case (1 s)
  show ?case
  proof (cases "group_step s")
    case None
    then show ?thesis using "1.prems" by (subst (asm) group_star.simps) simp
  next
    case (Some p)
    obtain t1 r1 where p: "p = (t1, r1)" by (cases p)
    obtain t2 r2 where g: "group_star r1 = (t2, r2)" by (cases "group_star r1")
    have e1: "escaped t1 \<and> escaped r1" using escaped_group_step[OF "1.prems"(1)] Some p by simp
    then have e2: "escaped t2 \<and> escaped r2" using "1.IH"[OF Some p[symmetric] _ g] by simp
    have "t = t1 @ t2" "r = r2"
      using "1.prems"(2) Some p g by (subst (asm) group_star.simps, simp)+
    then show ?thesis using e1 e2 by (simp add: escaped_append)
  qed
qed

lemma escaped_group_plus:
  assumes "escaped s" "group_plus s = Some (t, r)"
  shows "escaped t \<and> escaped r"
proof -
  obtain t1 r1 where a: "group_step s = Some (t1, r1)"
    using assms(2) by (auto simp: group_plus_def split: option.splits)
  obtain t2 r2 where b: "group_star r1 = (t2, r2)" by (cases "group_star r1")
  have tr: "t = t1 @ t2" "r = r2" using assms(2) a b by (simp_all add: group_plus_def)
  have e1: "escaped t1 \<and> escaped r1" using escaped_group_step[OF assms(1) a] .
  then have "escaped t2 \<and> escaped r2" using escaped_group_star[OF _ b] by simp
  then show ?thesis using e1 tr by (simp add: escaped_append)
qed

lemma group_plus_backslash: "group_plus (backslash # r) \<noteq> None"
  by (simp add: group_plus_def group_step_def term_char_backslash split: prod.splits)

lemma escaped_match_all: "escaped s \<Longrightarrow> list_all escaped (match_all s)"
proof (induction s rule: match_all.induct)
  case 1
  then show ?case by (simp add: match_all.simps)
next
  case (2 c r)
  show ?case
  proof (cases "group_plus (c # r)")
    case None
    then have "c \<noteq> backslash" using group_plus_backslash by metis
    then have "escaped r" using "2.prems" by (cases r) (simp_all split: if_splits)
    then show ?thesis using "2.IH"(1)[OF None] None by (simp add: match_all.simps)
  next
    case (Some p)
    obtain t rest where p: "p = (t, rest)" by (cases p)
    have e: "escaped t \<and> escaped rest" using escaped_group_plus[OF "2.prems"] Some p by simp
    then show ?thesis using "2.IH"(2)[OF Some p[symmetric]] Some p by (simp add: match_all.simps)
  qed
qed

lemma expand_term_Cons_plain:
  "\<not> is_meta c \<Longrightarrow> expand_term (c # s) = (if is_quote c then [] else glob_source c) @ expand_term s"
  by (auto simp: expand_term_def replace_char_def glob_source_def is_quote_def)

lemma expand_term_pair:
  "is_meta d \<Longrightarrow> expand_term (backslash # d # s) = glob_source d @ expand_term s"
  using meta_not_glob[of d]
  by (auto simp: expand_term_def replace_char_def glob_source_def is_quote_def)

lemma expand_escaped: "escaped t \<Longrightarrow> \<exists>g. expand_term t = concat (map glob_source g)"
proof (induction t rule: escaped.induct)
  case 1
  have "expand_term [] = concat (map glob_source [])" by simp
  then show ?case by blast
next
  case (2 c)
  then have "expand_term [c] = concat (map glob_source (if is_quote c then [] else [c]))"
    by (simp add: expand_term_Cons_plain)
  then show ?case by blast
next
  case (3 c d s)
  show ?case
  proof (cases "c = backslash")
    case True
    then have m: "is_meta d" "escaped s" using "3.prems" by simp_all
    then obtain g where "expand_term s = concat (map glob_source g)" using "3.IH"(1)[OF True] by blast
    then have "expand_term (c # d # s) = concat (map glob_source (d # g))"
      using True m(1) by (simp add: expand_term_pair)
    then show ?thesis by blast
  next
    case False
    then have m: "\<not> is_meta c" "escaped (d # s)" using "3.prems" by simp_all
    then obtain g where "expand_term (d # s) = concat (map glob_source g)"
      using "3.IH"(2)[OF False] by blast
    then have "expand_term (c # d # s)
                 = concat (map glob_source ((if is_quote c then [] else [c]) @ g))"
      using m(1) by (simp add: expand_term_Cons_plain)
    then show ?thesis by blast
  qed
qed

lemma parse_lookaheads:
  "list_all escaped ts \<Longrightarrow>
   \<exists>items. parse_items (concat (map (\<lambda>term'. ''(?=.*'' @ term' @ '')'') (map expand_term ts)) @ ''.*'')
            = Some items"
proof (induction ts)
  case Nil
  then show ?case by (simp add: parse_items_tail)
next
  case (Cons t ts)
  then obtain items where i: "parse_items (concat (map (\<lambda>term'. ''(?=.*'' @ term' @ '')'')
      (map expand_term ts)) @ ''.*'') = Some items" by auto
  obtain g where g: "expand_term t = concat (map glob_source g)"
    using Cons.prems expand_escaped by auto
  let ?rest = "concat (map (\<lambda>term'. ''(?=.*'' @ term' @ '')'') (map expand_term ts)) @ ''.*''"
  have "parse_items (''(?=.*'' @ concat (map glob_source g) @ CHR '')'' # ?rest)
          = Some (Lookahead (DotStar # map atom_of g) # items)"
    by (simp only: parse_items_lookahead i) simp
  then show ?case by (simp add: g)
qed

lemma getSearchRegex_parses: "\<exists>items. parse_items (source (getSearchRegex raw)) = Some items"
proof (cases "raw = []")
  case True
  then show ?thesis by (simp add: getSearchRegex_def parse_items_tail)
next
  case False
  have "list_all escaped (match_all (trim (escape_meta raw)))"
    by (intro escaped_match_all escaped_trim escaped_escape_meta)
  then show ?thesis
    using False parse_lookaheads by (simp add: getSearchRegex_def Let_def)
qed

lemma regexp_test_total: "\<exists>b. regexp_test (getSearchRegex raw) s = Some b"
  using getSearchRegex_parses[of raw] by (auto simp: regexp_test_def)


subsection \<open>The terms of any search text\<close>

text \<open>
  Escaping commutes with trimming and with the splitting into terms, since it only puts
  backslashes before characters that are neither white space nor quotes. So the terms
  that \<open>getSearchRegex\<close> expands are the terms of the text itself, escaped.
\<close>

lemma escape_meta_hd_space:
  "s \<noteq> [] \<Longrightarrow> is_space (hd (escape_meta s)) \<longleftrightarrow> is_space (hd s)"
  by (cases s) (auto simp: escape_meta_Cons space_not_meta is_space_def)

lemma dropWhile_space_escape:
  "dropWhile is_space (escape_meta s) = escape_meta (dropWhile is_space s)"
proof (induction s)
  case Nil
  then show ?case by simp
next
  case (Cons c s)
  show ?case
  proof (cases "is_space c")
    case True
    then show ?thesis using Cons by (simp add: escape_meta_Cons space_not_meta)
  next
    case False
    then have "\<not> is_space (hd (escape_meta (c # s)))"
      by (simp add: escape_meta_hd_space)
    moreover have "escape_meta (c # s) \<noteq> []" by (simp add: escape_meta_empty_iff)
    ultimately have "dropWhile is_space (escape_meta (c # s)) = escape_meta (c # s)"
      by (intro dropWhile_id) simp
    then show ?thesis using False by simp
  qed
qed

lemma drop_trailing_space_escape:
  "rev (dropWhile is_space (rev (escape_meta d))) = escape_meta (rev (dropWhile is_space (rev d)))"
proof (induction d rule: rev_induct)
  case Nil
  then show ?case by simp
next
  case (snoc c d)
  show ?case
  proof (cases "is_space c")
    case True
    then have "escape_meta (d @ [c]) = escape_meta d @ [c]"
      by (simp add: escape_meta_append escape_meta_Cons space_not_meta)
    then show ?thesis using True snoc by simp
  next
    case False
    have "\<exists>e. escape_meta (d @ [c]) = e @ [c]"
      by (cases "is_meta c") (simp_all add: escape_meta_append escape_meta_Cons)
    then obtain e where e: "escape_meta (d @ [c]) = e @ [c]" by blast
    then show ?thesis using False by simp
  qed
qed

lemma trim_escape_meta: "trim (escape_meta s) = escape_meta (trim s)"
  by (simp add: trim_def dropWhile_space_escape drop_trailing_space_escape)

lemma takeWhile_escape:
  assumes "\<And>c. is_meta c \<Longrightarrow> P c"
  shows "takeWhile P (escape_meta s) = escape_meta (takeWhile P s)"
    and "dropWhile P (escape_meta s) = escape_meta (dropWhile P s)"
  using assms[OF meta_backslash] assms
  by (induction s) (auto simp: escape_meta_Cons)

lemma quote_not_meta: "is_quote c \<Longrightarrow> \<not> is_meta c"
  using meta_not_quote by blast

lemma group_step_escape:
  "group_step (escape_meta s)
     = map_option (\<lambda>(t, r). (escape_meta t, escape_meta r)) (group_step s)"
proof (cases s)
  case Nil
  then show ?thesis by (simp add: group_step_def)
next
  case (Cons c r0)
  show ?thesis
  proof (cases "is_term_char c")
    case True
    obtain x xs where x: "escape_meta s = x # xs" "is_term_char x"
      using Cons True term_char_backslash by (cases "is_meta c") (auto simp: escape_meta_Cons)
    have "group_step (escape_meta s)
            = Some (takeWhile is_term_char (escape_meta s), dropWhile is_term_char (escape_meta s))"
      unfolding x(1) using x(2) by (simp add: group_step_def)
    moreover have "group_step s = Some (takeWhile is_term_char s, dropWhile is_term_char s)"
      using Cons True by (simp add: group_step_def)
    ultimately show ?thesis
      using takeWhile_escape[of is_term_char s] meta_term_char by simp
  next
    case False
    then have nm: "\<not> is_meta c" using meta_term_char by blast
    then have e: "escape_meta s = c # escape_meta r0" using Cons by (simp add: escape_meta_Cons)
    show ?thesis
    proof (cases "is_quote c")
      case q: True
      have d: "dropWhile (\<lambda>x. \<not> is_quote x) (escape_meta r0)
                 = escape_meta (dropWhile (\<lambda>x. \<not> is_quote x) r0)"
        and t: "takeWhile (\<lambda>x. \<not> is_quote x) (escape_meta r0)
                 = escape_meta (takeWhile (\<lambda>x. \<not> is_quote x) r0)"
        using takeWhile_escape[of "\<lambda>x. \<not> is_quote x" r0] meta_not_quote by simp_all
      have gs: "group_step s =
          (case dropWhile (\<lambda>x. \<not> is_quote x) r0 of
             [] \<Rightarrow> None
           | q' # r' \<Rightarrow> Some (c # takeWhile (\<lambda>x. \<not> is_quote x) r0 @ [q'], r'))"
        using Cons False q by (simp add: group_step_def)
      have ge: "group_step (escape_meta s) =
          (case escape_meta (dropWhile (\<lambda>x. \<not> is_quote x) r0) of
             [] \<Rightarrow> None
           | q' # r' \<Rightarrow>
               Some (c # escape_meta (takeWhile (\<lambda>x. \<not> is_quote x) r0) @ [q'], r'))"
        unfolding e using False q by (simp add: group_step_def d t cong: list.case_cong)
      show ?thesis
      proof (cases "dropWhile (\<lambda>x. \<not> is_quote x) r0")
        case Nil
        show ?thesis unfolding gs ge Nil by simp
      next
        case dw: (Cons q' r')
        then have "is_quote q'" by (metis hd_dropWhile list.sel(1) list.simps(3))
        then have nq: "\<not> is_meta q'" by (rule quote_not_meta)
        show ?thesis
          unfolding gs ge dw using nm nq by (simp add: escape_meta_Cons escape_meta_append)
      qed
    next
      case nq: False
      have "group_step s = None" using Cons False nq by (simp add: group_step_def)
      moreover have "group_step (escape_meta s) = None"
        unfolding e using False nq by (simp add: group_step_def)
      ultimately show ?thesis by simp
    qed
  qed
qed

lemma group_star_escape:
  "group_star (escape_meta s) = (case group_star s of (t, r) \<Rightarrow> (escape_meta t, escape_meta r))"
proof (induction s rule: group_star.induct)
  case (1 s)
  show ?case
  proof (cases "group_step s")
    case None
    then have "group_step (escape_meta s) = None" by (simp add: group_step_escape)
    then show ?thesis
      using None by (simp add: group_star.simps[of s] group_star.simps[of "escape_meta s"])
  next
    case (Some p)
    obtain t1 r1 where p: "p = (t1, r1)" by (cases p)
    obtain t2 r2 where g: "group_star r1 = (t2, r2)" by (cases "group_star r1")
    have e: "group_step (escape_meta s) = Some (escape_meta t1, escape_meta r1)"
      using Some p by (simp add: group_step_escape)
    have ih: "group_star (escape_meta r1) = (escape_meta t2, escape_meta r2)"
      using "1.IH"[OF Some p[symmetric]] g by simp
    show ?thesis
      using Some p g e ih
      by (simp add: group_star.simps[of s] group_star.simps[of "escape_meta s"]
          escape_meta_append)
  qed
qed

lemma group_plus_escape:
  "group_plus (escape_meta s)
     = map_option (\<lambda>(t, r). (escape_meta t, escape_meta r)) (group_plus s)"
proof (cases "group_step s")
  case None
  then show ?thesis by (simp add: group_plus_def group_step_escape)
next
  case (Some p)
  obtain t1 r1 where p: "p = (t1, r1)" by (cases p)
  obtain t2 r2 where g: "group_star r1 = (t2, r2)" by (cases "group_star r1")
  have "group_star (escape_meta r1) = (escape_meta t2, escape_meta r2)"
    using g by (simp add: group_star_escape)
  then show ?thesis
    using Some p g by (simp add: group_plus_def group_step_escape escape_meta_append)
qed

lemma group_plus_None_not_meta: "group_plus (c # r) = None \<Longrightarrow> \<not> is_meta c"
  using meta_term_char[of c]
  by (auto simp: group_plus_def group_step_def split: option.splits prod.splits)

lemma match_all_escape: "match_all (escape_meta s) = map escape_meta (match_all s)"
proof (induction s rule: match_all.induct)
  case 1
  then show ?case by (simp add: match_all.simps)
next
  case (2 c r)
  obtain x xs where x: "escape_meta (c # r) = x # xs"
    by (cases "escape_meta (c # r)") (simp_all add: escape_meta_empty_iff)
  show ?case
  proof (cases "group_plus (c # r)")
    case None
    then have "\<not> is_meta c" by (rule group_plus_None_not_meta)
    then have e: "escape_meta (c # r) = c # escape_meta r" by (simp add: escape_meta_Cons)
    have "group_plus (c # escape_meta r) = None"
      using None group_plus_escape[of "c # r"] by (simp add: e)
    then show ?thesis
      using None "2.IH"(1)[OF None] by (simp add: e match_all.simps)
  next
    case (Some p)
    obtain t rest where p: "p = (t, rest)" by (cases p)
    have "group_plus (x # xs) = Some (escape_meta t, escape_meta rest)"
      using Some p group_plus_escape[of "c # r"] by (simp add: x)
    then show ?thesis
      using Some p "2.IH"(2)[OF Some p[symmetric]]
      by (simp add: x match_all.simps)
  qed
qed

lemma expand_escape_meta_quotes:
  "expand_term (escape_meta t) = concat (map glob_source (filter (\<lambda>c. \<not> is_quote c) t))"
proof (induction t)
  case Nil
  then show ?case by simp
next
  case (Cons c t)
  have "expand_term (if is_meta c then [backslash, c] else [c])
          = (if is_quote c then [] else glob_source c)"
  proof (cases "is_quote c")
    case True
    then show ?thesis
      using quote_not_meta[OF True]
      by (auto simp: expand_term_def replace_char_def is_quote_def)
  next
    case False
    then show ?thesis by (simp add: expand_escaped_char)
  qed
  then show ?case
    using Cons by (simp add: escape_meta_Cons expand_term_append del: append.simps)
qed

lemma expanded_terms:
  "map expand_term (match_all (trim (escape_meta raw)))
     = map (\<lambda>g. concat (map glob_source g)) (search_terms raw)"
  by (simp add: trim_escape_meta match_all_escape search_terms_def expand_escape_meta_quotes
      comp_def)

lemma parse_glob_lookaheads:
  "parse_items (concat (map (\<lambda>term'. ''(?=.*'' @ term' @ '')'')
                  (map (\<lambda>g. concat (map glob_source g)) gs)) @ ''.*'')
     = Some (map (\<lambda>g. Lookahead (DotStar # map atom_of g)) gs @ [Plain DotStar])"
proof (induction gs)
  case Nil
  then show ?case by (simp add: parse_items_tail)
next
  case (Cons g gs)
  let ?rest = "concat (map (\<lambda>term'. ''(?=.*'' @ term' @ '')'')
                  (map (\<lambda>g. concat (map glob_source g)) gs)) @ ''.*''"
  have "parse_items (''(?=.*'' @ concat (map glob_source g) @ CHR '')'' # ?rest)
          = Some (Lookahead (DotStar # map atom_of g)
                    # map (\<lambda>g. Lookahead (DotStar # map atom_of g)) gs @ [Plain DotStar])"
    by (simp only: parse_items_lookahead Cons.IH) simp
  then show ?case by simp
qed

lemma search_terms_Nil: "search_terms [] = []"
  by (simp add: search_terms_def trim_def match_all.simps)

lemma test_terms:
  "regexp_test (getSearchRegex raw) s
     = Some (search_from canonicalize
               (map (\<lambda>g. Lookahead (DotStar # map atom_of g)) (search_terms raw) @ [Plain DotStar])
               s)"
proof (cases "raw = []")
  case True
  then show ?thesis
    by (simp add: regexp_test_def getSearchRegex_def parse_items_tail search_terms_Nil)
next
  case False
  then have "source (getSearchRegex raw)
      = concat (map (\<lambda>term'. ''(?=.*'' @ term' @ '')'')
                  (map expand_term (match_all (trim (escape_meta raw))))) @ ''.*''"
    and i: "ignoreCase (getSearchRegex raw)"
    by (simp_all add: getSearchRegex_def Let_def)
  then have "source (getSearchRegex raw)
      = concat (map (\<lambda>term'. ''(?=.*'' @ term' @ '')'')
                  (map (\<lambda>g. concat (map glob_source g)) (search_terms raw))) @ ''.*''"
    by (simp only: expanded_terms)
  then show ?thesis
    using i by (simp only: regexp_test_def parse_glob_lookaheads option.case if_True)
qed

text \<open>The matcher of the modelled expressions does what the description of a term says.\<close>

lemma match_atoms_glob:
  "match_atoms canonicalize (map atom_of g) w \<longleftrightarrow> glob_prefix g w"
proof (induction g arbitrary: w)
  case Nil
  then show ?case by simp
next
  case (Cons c g)
  show ?case
  proof (cases "c = CHR ''*''")
    case True
    then show ?thesis
      using Cons.IH
      by (simp add: atom_of_def match_dotstar no_line_terminator_def list_all_iff)
  next
    case False
    show ?thesis
    proof (cases "c = CHR ''?''")
      case True
      then show ?thesis using Cons.IH by (simp add: atom_of_def match_dot)
    next
      case q: False
      then show ?thesis using False Cons.IH by (cases w) (simp_all add: atom_of_def)
    qed
  qed
qed

lemma lookahead_term_found:
  "match_atoms canonicalize (DotStar # map atom_of g) v \<longleftrightarrow> term_found g v"
  by (simp add: match_dotstar match_atoms_glob term_found_def no_line_terminator_def list_all_iff)

lemma match_lookaheads:
  "match_items canonicalize
     (map (\<lambda>g. Lookahead (DotStar # map atom_of g)) gs @ [Plain DotStar]) v
   \<longleftrightarrow> list_all (\<lambda>g. term_found g v) gs"
  by (induction gs) (simp_all add: match_plain_dotstar lookahead_term_found del: match_atoms.simps)

lemma test_accepts: "regexp_test (getSearchRegex raw) s = Some (accepts (search_terms raw) s)"
  by (simp only: test_terms search_from_iff match_lookaheads accepts_def)

text \<open>The terms of the usual texts: one word, two words, a quoted text.\<close>

lemma search_terms_word:
  assumes "list_all is_term_char g" "g \<noteq> []"
  shows "search_terms g = [g]"
proof -
  have "trim g = g"
    using term_chars_ends[OF assms] assms(2) by (intro trim_id)
  moreover have "match_all g = [g]" by (rule match_all_one[OF assms])
  ultimately show ?thesis
    using term_char_not_quote[OF assms(1)]
    by (simp add: search_terms_def list_all_iff filter_id_conv)
qed

lemma search_terms_two_words:
  assumes "list_all is_term_char g1" "g1 \<noteq> []" "list_all is_term_char g2" "g2 \<noteq> []"
    and "list_all is_space w" "w \<noteq> []"
  shows "search_terms (g1 @ w @ g2) = [g1, g2]"
proof -
  have "hd (g1 @ w @ g2) = hd g1" "last (g1 @ w @ g2) = last g2"
    using assms(2,4) by simp_all
  then have "trim (g1 @ w @ g2) = g1 @ w @ g2"
    using term_chars_ends[OF assms(1,2)] term_chars_ends[OF assms(3,4)] assms(2)
    by (intro trim_id) simp_all
  moreover have "match_all (g1 @ w @ g2) = [g1, g2]"
  proof -
    have "is_space (hd (w @ g2))" using assms(5,6) by (cases w) simp_all
    then have "match_all (g1 @ w @ g2) = g1 # match_all (w @ g2)"
      using assms(1,2) by (intro match_all_term) simp_all
    also have "match_all (w @ g2) = match_all g2" by (rule match_all_spaces[OF assms(5)])
    also have "\<dots> = [g2]" by (rule match_all_one[OF assms(3,4)])
    finally show ?thesis .
  qed
  ultimately show ?thesis
    using term_char_not_quote[OF assms(1)] term_char_not_quote[OF assms(3)]
    by (simp add: search_terms_def list_all_iff filter_id_conv)
qed

lemma search_terms_quoted:
  assumes "is_quote q" "is_quote q'" "list_all (\<lambda>c. \<not> is_quote c) t"
  shows "search_terms (q # t @ [q']) = [t]"
proof -
  have ns: "\<not> is_space q" "\<not> is_space q'" using assms(1,2) space_not_quote by blast+
  then have tr: "trim (q # t @ [q']) = q # t @ [q']"
    by (intro trim_id) simp_all
  have "dropWhile (\<lambda>x. \<not> is_quote x) (t @ [q']) = [q']"
    "takeWhile (\<lambda>x. \<not> is_quote x) (t @ [q']) = t"
    using takeWhile_all[of "\<lambda>x. \<not> is_quote x" t "[q']"] assms(2,3) by simp_all
  then have "group_step (q # t @ [q']) = Some (q # t @ [q'], [])"
    using assms(1) by (simp add: group_step_def is_term_char_def)
  then have "group_plus (q # t @ [q']) = Some (q # t @ [q'], [])"
    by (simp add: group_plus_def group_star_stop)
  then have "match_all (q # t @ [q']) = [q # t @ [q']]"
    by (simp add: match_all.simps)
  then show ?thesis
    using assms by (simp add: search_terms_def tr list_all_iff filter_id_conv)
qed
section \<open>The claims about the validation engine\<close>

text \<open>
  C1: every edit of one field's value runs \<open>customCheckValidity\<close> on every field of the
  list, not only on the edited one: afterwards each field carries the message that the
  rules give for its value in the new state, and \<open>allIedNamesValid\<close> is the conjunction
  of the fields' individual validity (what \<open>customCheckValidity\<close> returns for each).
\<close>

theorem input_event_revalidates_all:
  assumes "i < length (ied_fields s)"
  shows "\<exists>s'. input_event i v s = Inr s'
     \<and> length (ied_fields s') = length (ied_fields s)
     \<and> (\<forall>j < length (ied_fields s').
           field_value (ied_fields s' ! j) = (if j = i then v else field_value (ied_fields s ! j)))
     \<and> (\<forall>j < length (ied_fields s').
           custom_validity (ied_fields s' ! j) = validity_message s' (ied_fields s' ! j))
     \<and> (\<forall>j < length (ied_fields s').
           snd (customCheckValidity j s') = (custom_validity (ied_fields s' ! j) = []))
     \<and> allIedNamesValid s' = (\<forall>j < length (ied_fields s'). snd (customCheckValidity j s'))"
proof -
  let ?t = "set_field_value True i v s"
  let ?s' = "handled i ?t"
  have ev: "input_event i v s = Inr ?s'" by (rule input_event_eq[OF assms])
  have len: "length (ied_fields ?s') = length (ied_fields s)" by simp
  have val: "field_value (ied_fields ?s' ! j) = (if j = i then v else field_value (ied_fields s ! j))"
    if "j < length (ied_fields ?s')" for j
    using that assms by (simp add: handled_nth) (simp add: set_field_value_def nth_list_update)
  have msg: "custom_validity (ied_fields ?s' ! j) = validity_message ?s' (ied_fields ?s' ! j)"
    if "j < length (ied_fields ?s')" for j
    using that by (simp add: handled_nth handled_message handled_nth_message)
  have ind: "snd (customCheckValidity j ?s') = (custom_validity (ied_fields ?s' ! j) = [])"
    if "j < length (ied_fields ?s')" for j
    using that msg[OF that] customCheckValidity_snd[of j ?s'] by simp
  have "allIedNamesValid ?s' =
          (\<forall>j < length (ied_fields ?t). validity_message ?t (ied_fields ?t ! j) = [])"
    by (simp add: list_all_length)
  also have "\<dots> = (\<forall>j < length (ied_fields ?s'). custom_validity (ied_fields ?s' ! j) = [])"
    by (simp add: handled_nth)
  also have "\<dots> = (\<forall>j < length (ied_fields ?s'). snd (customCheckValidity j ?s'))"
    using ind by simp
  finally have all: "allIedNamesValid ?s' =
      (\<forall>j < length (ied_fields ?s'). snd (customCheckValidity j ?s'))" .
  show ?thesis
    using ev len val msg ind all by blast
qed

theorem input_event_revalidates_all_witness:
  "0 < length (ied_fields two_ieds) \<and>
   (\<exists>s'. input_event 0 ''IED2'' two_ieds = Inr s'
      \<and> length (ied_fields s') = 2
      \<and> map field_value (ied_fields s') = [''IED2'', ''IED2'']
      \<and> map custom_validity (ied_fields s') = [msg_unique, msg_unique]
      \<and> snd (customCheckValidity 0 s') = False
      \<and> snd (customCheckValidity 1 s') = False
      \<and> allIedNamesValid s' = False)"
proof -
  have h: "0 < length (ied_fields two_ieds)" by (simp add: two_ieds_eq)
  from input_event_revalidates_all[OF h, of "''IED2''"] obtain s' where
    s': "input_event 0 ''IED2'' two_ieds = Inr s'"
    and "\<forall>j < length (ied_fields s').
           snd (customCheckValidity j s') = (custom_validity (ied_fields s' ! j) = [])"
    by blast
  then have "snd (customCheckValidity 0 s') = False \<and> snd (customCheckValidity 1 s') = False"
    using input_IED2 by (auto simp: both_IED2_def msgs_nonempty)
  then show ?thesis using h s' input_IED2 by (auto simp: both_IED2_def)
qed

text \<open>
  C2: invalidation by a duplicate is symmetric and reversible. In the session opened on
  \<open>IED1\<close> and \<open>IED2\<close>, typing \<open>IED2\<close> into the first field marks both fields with the
  message of the uniqueness rule and clears \<open>allIedNamesValid\<close>; typing \<open>IED1\<close> back
  clears both messages, empties \<open>iedsToRename\<close> and sets \<open>allIedNamesValid\<close> again.
\<close>

theorem duplicate_symmetric_reversible:
  "\<exists>s1 s2. input_event 0 ''IED2'' (run (rendered [''IED1'', ''IED2''])) = Inr s1
     \<and> map data_old_name (ied_fields s1) = [''IED1'', ''IED2'']
     \<and> map custom_validity (ied_fields s1) = [msg_unique, msg_unique]
     \<and> allIedNamesValid s1 = False
     \<and> iedsToRename s1 = [''IED1'']
     \<and> input_event 0 ''IED1'' s1 = Inr s2
     \<and> map data_old_name (ied_fields s2) = [''IED1'', ''IED2'']
     \<and> map custom_validity (ied_fields s2) = [[], []]
     \<and> iedsToRename s2 = []
     \<and> allIedNamesValid s2 = True"
  using input_IED2 input_IED1_back
  by (simp add: two_ieds_def[symmetric]) (simp add: both_IED2_def typed_back_def)

text \<open>
  C3, as the code has it: the length rule is the platform's \<open>validity.tooLong\<close>, which
  holds for a value of more than 64 characters that was last changed by an edit of the
  user (\<open>tooShort\<close> never holds, the minimum being one character). Whenever the field
  receives a value, such a value that matches the name pattern gets the message of the
  length rule and the session is not valid, while a value that a script put into the
  field never gets that message. The rules before it take precedence over the length:
  the empty value gets the message of the required field and a value that fails the
  pattern gets the message of the pattern, however long it is. \<open>value_event True\<close> is an
  edit of the user (\<open>input_event\<close>), \<open>value_event False\<close> a value set by script; an edit
  of the user is taken to be one the platform allows, which leaves more than 64
  characters only in a field that held more than 64 before.
\<close>

theorem length_rule_of_user_edits:
  assumes "i < length (ied_fields s)"
    and "by_user \<longrightarrow>
           length v \<le> maxLength \<or> maxLength < length (field_value (ied_fields s ! i))"
  shows "\<exists>s'. value_event by_user i v s = Inr s'
     \<and> field_value (ied_fields s' ! i) = v
     \<and> (tooLong (ied_fields s' ! i) \<longleftrightarrow> by_user \<and> maxLength < length v)
     \<and> \<not> tooShort (ied_fields s' ! i)
     \<and> (v = [] \<longrightarrow>
           custom_validity (ied_fields s' ! i) = msg_missing \<and> \<not> allIedNamesValid s')
     \<and> (v \<noteq> [] \<and> \<not> pattern_matches v \<longrightarrow>
           custom_validity (ied_fields s' ! i) = msg_pattern \<and> \<not> allIedNamesValid s')
     \<and> (pattern_matches v \<and> tooLong (ied_fields s' ! i) \<longrightarrow>
           custom_validity (ied_fields s' ! i) = msg_length \<and> \<not> allIedNamesValid s')
     \<and> (\<not> by_user \<longrightarrow> custom_validity (ied_fields s' ! i) \<noteq> msg_length)"
proof -
  let ?t = "set_field_value by_user i v s"
  let ?s' = "handled i ?t"
  let ?m = "validity_message ?t (ied_fields ?t ! i)"
  have ev: "value_event by_user i v s = Inr ?s'" by (rule value_event_eq[OF assms(1)])
  have val: "field_value (ied_fields ?s' ! i) = v"
    and usr: "user_edited (ied_fields ?s' ! i) = by_user"
    and msg: "custom_validity (ied_fields ?s' ! i) = ?m"
    using assms(1) by (simp_all add: handled_nth set_field_value_nth)
  have tl: "tooLong (ied_fields ?s' ! i) \<longleftrightarrow> by_user \<and> maxLength < length v"
    by (simp add: tooLong_def val usr)
  have ts: "\<not> tooShort (ied_fields ?s' ! i)"
    by (auto simp: tooShort_def val minLength_def)
  have m: "?m = (if v = [] then msg_missing
      else if \<not> pattern_matches v then msg_pattern
      else if by_user \<and> maxLength < length v then msg_length
      else if duplicatedIedName ?t v then msg_unique
      else [])"
    by (rule edited_field_message[OF assms(1)])
  have inv: "\<not> allIedNamesValid ?s'" if "?m \<noteq> []"
    using value_event_rejects[OF assms(1) refl that] ev by simp
  have rejected: "custom_validity (ied_fields ?s' ! i) = x \<and> \<not> allIedNamesValid ?s'"
    if "?m = x" "x \<noteq> []" for x
    using inv msg that by metis
  have a: "v = [] \<longrightarrow> custom_validity (ied_fields ?s' ! i) = msg_missing \<and> \<not> allIedNamesValid ?s'"
  proof
    assume "v = []"
    then have "?m = msg_missing" by (subst m) simp
    then show "custom_validity (ied_fields ?s' ! i) = msg_missing \<and> \<not> allIedNamesValid ?s'"
      using msgs_nonempty(1) by (rule rejected)
  qed
  have b: "v \<noteq> [] \<and> \<not> pattern_matches v \<longrightarrow>
      custom_validity (ied_fields ?s' ! i) = msg_pattern \<and> \<not> allIedNamesValid ?s'"
  proof
    assume "v \<noteq> [] \<and> \<not> pattern_matches v"
    then have "?m = msg_pattern" by (subst m) simp
    then show "custom_validity (ied_fields ?s' ! i) = msg_pattern \<and> \<not> allIedNamesValid ?s'"
      using msgs_nonempty(2) by (rule rejected)
  qed
  have c: "pattern_matches v \<and> tooLong (ied_fields ?s' ! i) \<longrightarrow>
      custom_validity (ied_fields ?s' ! i) = msg_length \<and> \<not> allIedNamesValid ?s'"
  proof
    assume "pattern_matches v \<and> tooLong (ied_fields ?s' ! i)"
    then have "pattern_matches v" "v \<noteq> []" "by_user \<and> maxLength < length v"
      using tl pattern_matches_nonempty[of v] by blast+
    then have "?m = msg_length" by (subst m) simp
    then show "custom_validity (ied_fields ?s' ! i) = msg_length \<and> \<not> allIedNamesValid ?s'"
      using msgs_nonempty(3) by (rule rejected)
  qed
  have d: "\<not> by_user \<longrightarrow> custom_validity (ied_fields ?s' ! i) \<noteq> msg_length"
  proof
    assume "\<not> by_user"
    then have "?m \<in> {msg_missing, msg_pattern, msg_unique, []}" by (subst m) simp
    then show "custom_validity (ied_fields ?s' ! i) \<noteq> msg_length"
      unfolding msg using msgs_distinct by auto
  qed
  show ?thesis
    using ev val tl ts a b c d by blast
qed

theorem length_rule_of_user_edits_witness:
  "0 < length (ied_fields long_ieds) \<and> 0 < length (ied_fields two_ieds)
   \<and> field_value (ied_fields long_ieds ! 0) = replicate 70 CHR ''A''
   \<and> maxLength < length (field_value (ied_fields long_ieds ! 0))
   \<and> pattern_matches (replicate 69 CHR ''A'')
   \<and> (\<exists>s'. input_event 0 (replicate 69 CHR ''A'') long_ieds = Inr s'
        \<and> tooLong (ied_fields s' ! 0)
        \<and> custom_validity (ied_fields s' ! 0) = msg_length \<and> \<not> allIedNamesValid s')
   \<and> (\<exists>s'. script_event 0 (replicate 65 CHR ''A'') two_ieds = Inr s'
        \<and> field_value (ied_fields s' ! 0) = replicate 65 CHR ''A''
        \<and> \<not> tooLong (ied_fields s' ! 0)
        \<and> custom_validity (ied_fields s' ! 0) = [] \<and> allIedNamesValid s')
   \<and> (\<exists>s'. input_event 0 [] two_ieds = Inr s'
        \<and> custom_validity (ied_fields s' ! 0) = msg_missing \<and> \<not> allIedNamesValid s')
   \<and> \<not> pattern_matches ''1bad''
   \<and> (\<exists>s'. input_event 0 ''1bad'' two_ieds = Inr s'
        \<and> custom_validity (ied_fields s' ! 0) = msg_pattern \<and> \<not> allIedNamesValid s')"
proof -
  have h: "0 < length (ied_fields two_ieds)" by (simp add: two_ieds_eq)
  have hl: "0 < length (ied_fields long_ieds)"
    by (simp add: long_ieds_def run_def rendered_def)
  have fl: "field_value (ied_fields long_ieds ! 0) = replicate 70 CHR ''A''"
    by (simp add: long_ieds_def run_def rendered_def renderIedItem_def reset_field_def)
  have p: "pattern_matches (replicate 69 CHR ''A'')"
    using letters_match[of 68] by simp
  have l: "maxLength < length (replicate 69 CHR ''A'')"
    "maxLength < length (field_value (ied_fields long_ieds ! 0))"
    "length ([] :: string) \<le> maxLength" "length ''1bad'' \<le> maxLength"
    by (simp_all add: maxLength_def fl)
  have n: "\<not> pattern_matches ''1bad''" "''1bad'' \<noteq> []" by (simp_all add: is_letter_def)
  have 1: "\<exists>s'. input_event 0 (replicate 69 CHR ''A'') long_ieds = Inr s'
        \<and> tooLong (ied_fields s' ! 0)
        \<and> custom_validity (ied_fields s' ! 0) = msg_length \<and> \<not> allIedNamesValid s'"
    using length_rule_of_user_edits[OF hl, of True "replicate 69 CHR ''A''"] p l(1,2)
    unfolding input_event_def by blast
  have 2: "\<exists>s'. script_event 0 (replicate 65 CHR ''A'') two_ieds = Inr s'
        \<and> field_value (ied_fields s' ! 0) = replicate 65 CHR ''A''
        \<and> \<not> tooLong (ied_fields s' ! 0)
        \<and> custom_validity (ied_fields s' ! 0) = [] \<and> allIedNamesValid s'"
    using length_rule_of_user_edits[OF h, of False "replicate 65 CHR ''A''"]
      letters_accepted[of False 64]
    unfolding script_event_def by auto
  have 3: "\<exists>s'. input_event 0 [] two_ieds = Inr s'
        \<and> custom_validity (ied_fields s' ! 0) = msg_missing \<and> \<not> allIedNamesValid s'"
    using length_rule_of_user_edits[OF h, of True "[]"] l(3)
    unfolding input_event_def by blast
  have 4: "\<exists>s'. input_event 0 ''1bad'' two_ieds = Inr s'
        \<and> custom_validity (ied_fields s' ! 0) = msg_pattern \<and> \<not> allIedNamesValid s'"
    using length_rule_of_user_edits[OF h, of True "''1bad''"] n l(4)
    unfolding input_event_def by blast
  show ?thesis
    using h hl fl l(2) p n(1) 1 2 3 4 by (intro conjI)
qed

text \<open>
  C3 as stated fails: a value whose length is outside 1 to 63 is not always rejected for
  its length. The empty value (length 0) is rejected as a missing value, seventy digits
  are rejected for the pattern, and 64 letters are not rejected at all.
\<close>

theorem length_rule_counterexample:
  "(\<exists>s'. input_event 0 [] two_ieds = Inr s' \<and> length ([] :: string) < 1
        \<and> custom_validity (ied_fields s' ! 0) = msg_missing \<and> msg_missing \<noteq> msg_length)
   \<and> (\<exists>s'. input_event 0 (replicate 70 CHR ''1'') two_ieds = Inr s'
        \<and> 63 < length (replicate 70 CHR ''1'')
        \<and> custom_validity (ied_fields s' ! 0) = msg_pattern \<and> msg_pattern \<noteq> msg_length)
   \<and> (\<exists>s'. input_event 0 (replicate 64 CHR ''A'') two_ieds = Inr s'
        \<and> length (replicate 64 CHR ''A'') = 64
        \<and> custom_validity (ied_fields s' ! 0) = [] \<and> allIedNamesValid s')"
proof -
  have h: "0 < length (ied_fields two_ieds)" by (simp add: two_ieds_eq)
  have nm: "\<not> pattern_matches (replicate (Suc n) CHR ''1'')" for n
    by (simp add: is_letter_def)
  have "replicate 70 CHR ''1'' = replicate (Suc 69) CHR ''1''" by simp
  then have np: "\<not> pattern_matches (replicate 70 CHR ''1'')" using nm[of 69] by simp
  have ne: "replicate 70 CHR ''1'' \<noteq> []" by simp
  have d: "msg_missing \<noteq> msg_length" "msg_pattern \<noteq> msg_length"
    by (simp_all add: msg_missing_def msg_pattern_def msg_length_def)
  have a: "\<exists>s'. input_event 0 [] two_ieds = Inr s' \<and> length ([] :: string) < 1
        \<and> custom_validity (ied_fields s' ! 0) = msg_missing \<and> msg_missing \<noteq> msg_length"
    using h d(1) by (simp add: input_event_eq handled_nth edited_field_message)
  have b: "\<exists>s'. input_event 0 (replicate 70 CHR ''1'') two_ieds = Inr s'
        \<and> 63 < length (replicate 70 CHR ''1'')
        \<and> custom_validity (ied_fields s' ! 0) = msg_pattern \<and> msg_pattern \<noteq> msg_length"
    using h d(2) np ne by (simp add: input_event_eq handled_nth edited_field_message)
  show ?thesis using a b sixty_four_letters_accepted by blast
qed

text \<open>
  C4, as the code has it: in a session opened on a document whose names are distinct and
  can stand in the selector as they are (no double quote, backslash, line break or NUL),
  and edited any number of times, a click on the enabled button dispatches one edit per
  item of the list, in list order, from the item's old name to its current value, and
  closes the dialog. The edits that change a name are those of the identities in
  \<open>iedsToRename\<close>, one each; an item whose value equals its old name is dispatched as
  well, with that same name.
\<close>

theorem rename_click_commands:
  assumes "distinct names" and "list_all selector_safe names"
    and "edits es (run (rendered names)) = Inr s"
    and "\<not> rename_disabled s"
  shows "\<exists>cmds. rename_click querySelector s = (cmds, Inr (s\<lparr>dialog_open := False\<rparr>))
     \<and> cmds = map (\<lambda>e. (data_old_name e, field_value e)) (ied_fields s)
     \<and> map fst cmds = names
     \<and> fst ` {c \<in> set cmds. fst c \<noteq> snd c} = set (iedsToRename s)
     \<and> distinct (iedsToRename s)"
proof -
  have t: "tracked names s"
    by (rule tracked_edits[OF tracked_initial[OF assms(1)] assms(3)])
  let ?cmds = "map (\<lambda>e. (data_old_name e, field_value e)) (ied_fields s)"
  have c: "rename_click querySelector s = (?cmds, Inr (s\<lparr>dialog_open := False\<rparr>))"
    by (rule rename_click_tracked[OF t assms(2) assms(4)])
  have n: "map fst ?cmds = names" using t by (simp add: tracked_def comp_def)
  have "fst ` {c \<in> set ?cmds. fst c \<noteq> snd c} = pending s"
    by (auto simp: pending_def image_iff) force+
  then have p: "fst ` {c \<in> set ?cmds. fst c \<noteq> snd c} = set (iedsToRename s)"
    using t by (simp add: tracked_def)
  have d: "distinct (iedsToRename s)" using t by (simp add: tracked_def)
  show ?thesis using c n p d by blast
qed

theorem rename_click_commands_witness:
  "distinct [''IED1'', ''IED2'', ''IED3'']
   \<and> list_all selector_safe [''IED1'', ''IED2'', ''IED3'']
   \<and> edits [(0, ''A1''), (1, ''B2'')] (run (rendered [''IED1'', ''IED2'', ''IED3''])) = Inr two_renamed
   \<and> \<not> rename_disabled two_renamed
   \<and> (\<exists>cmds. rename_click (\<lambda>selector. Inl SyntaxError) two_renamed
                 = (cmds, Inr (two_renamed\<lparr>dialog_open := False\<rparr>))
         \<and> map fst cmds = [''IED1'', ''IED2'', ''IED3'']
         \<and> fst ` {c \<in> set cmds. fst c \<noteq> snd c} = {''IED1'', ''IED2''})"
proof -
  have 1: "distinct [''IED1'', ''IED2'', ''IED3'']" by simp
  have s: "list_all selector_safe [''IED1'', ''IED2'', ''IED3'']"
    by (simp add: selector_safe_def)
  have 2: "edits [(0, ''A1''), (1, ''B2'')] (run (rendered [''IED1'', ''IED2'', ''IED3''])) = Inr two_renamed"
    using edits_two_renamed by (simp add: three_ieds_def)
  have 3: "\<not> rename_disabled two_renamed"
    by (simp add: rename_disabled_def two_renamed_def)
  have 4: "set (iedsToRename two_renamed) = {''IED1'', ''IED2''}"
    by (simp add: two_renamed_def)
  from rename_click_commands[OF 1 s 2 3, of "\<lambda>selector. Inl SyntaxError"] obtain cmds where
    "rename_click (\<lambda>selector. Inl SyntaxError) two_renamed
       = (cmds, Inr (two_renamed\<lparr>dialog_open := False\<rparr>))"
    "map fst cmds = [''IED1'', ''IED2'', ''IED3'']"
    "fst ` {c \<in> set cmds. fst c \<noteq> snd c} = set (iedsToRename two_renamed)"
    by (elim exE conjE)
  then show ?thesis using 1 s 2 3 4 by auto
qed

text \<open>
  C4 as stated fails: with three devices of which two were renamed, the click dispatches
  three edits and not two; the third is for the untouched \<open>IED3\<close>, from its name to its
  name.
\<close>

theorem rename_click_counterexample:
  "\<exists>s cmds s'. edits [(0, ''A1''), (1, ''B2'')] (run (rendered [''IED1'', ''IED2'', ''IED3''])) = Inr s
     \<and> allIedNamesValid s
     \<and> iedsToRename s = [''IED1'', ''IED2'']
     \<and> rename_click (\<lambda>selector. Inl SyntaxError) s = (cmds, Inr s')
     \<and> cmds = [(''IED1'', ''A1''), (''IED2'', ''B2''), (''IED3'', ''IED3'')]
     \<and> length cmds \<noteq> length (iedsToRename s)
     \<and> (''IED3'', ''IED3'') \<in> set cmds
     \<and> field_value (ied_fields s ! 2) = data_old_name (ied_fields s ! 2)"
proof -
  have "edits [(0, ''A1''), (1, ''B2'')] (run (rendered [''IED1'', ''IED2'', ''IED3''])) = Inr two_renamed"
    using edits_two_renamed by (simp add: three_ieds_def)
  moreover have "allIedNamesValid two_renamed" "iedsToRename two_renamed = [''IED1'', ''IED2'']"
    "field_value (ied_fields two_renamed ! 2) = data_old_name (ied_fields two_renamed ! 2)"
    by (simp_all add: two_renamed_def)
  ultimately show ?thesis
    using click_two_renamed[of "\<lambda>selector. Inl SyntaxError"] by auto
qed



text \<open>
  C6: the button is enabled exactly when \<open>iedsToRename\<close> is not empty and
  \<open>allIedNamesValid\<close> holds. While it is disabled a click dispatches nothing, leaves the
  state as it is and raises no error. In a session opened on distinct names and edited
  any number of times the two properties mean what they say: the button is enabled exactly
  when some field differs from its old name and every field passes the rules.
\<close>

theorem rename_enabled_iff:
  "(\<not> rename_disabled s \<longleftrightarrow> iedsToRename s \<noteq> [] \<and> allIedNamesValid s)
   \<and> (rename_disabled s \<longrightarrow> rename_click querySelector s = ([], Inr s))
   \<and> (distinct names \<and> edits es (run (rendered names)) = Inr s \<longrightarrow>
        (\<not> rename_disabled s \<longleftrightarrow> pending s \<noteq> {} \<and> all_fields_valid s))"
proof -
  have a: "\<not> rename_disabled s \<longleftrightarrow> iedsToRename s \<noteq> [] \<and> allIedNamesValid s"
    by (simp add: rename_disabled_def)
  have b: "rename_disabled s \<longrightarrow> rename_click querySelector s = ([], Inr s)"
    by (simp add: rename_click_def)
  have c: "\<not> rename_disabled s \<longleftrightarrow> pending s \<noteq> {} \<and> all_fields_valid s"
    if d: "distinct names" and e: "edits es (run (rendered names)) = Inr s"
  proof -
    have t: "tracked names s" by (rule tracked_edits[OF tracked_initial[OF d] e])
    have v: "validated s" by (rule validated_edits[OF validated_initial e])
    have p: "iedsToRename s \<noteq> [] \<longleftrightarrow> pending s \<noteq> {}"
      using t by (auto simp: tracked_def)
    show ?thesis
      using a p v by (auto simp: validated_def)
  qed
  show ?thesis using a b c by blast
qed

theorem rename_enabled_iff_witness:
  "rename_disabled two_ieds \<and> iedsToRename two_ieds = []
   \<and> rename_click (\<lambda>selector. Inl SyntaxError) two_ieds = ([], Inr two_ieds)
   \<and> rename_disabled both_IED2 \<and> iedsToRename both_IED2 = [''IED1'']
   \<and> \<not> allIedNamesValid both_IED2
   \<and> rename_click (\<lambda>selector. Inl SyntaxError) both_IED2 = ([], Inr both_IED2)
   \<and> edits [(0, ''A1''), (1, ''B2'')] (run (rendered [''IED1'', ''IED2'', ''IED3''])) = Inr two_renamed
   \<and> \<not> rename_disabled two_renamed
   \<and> pending two_renamed \<noteq> {} \<and> all_fields_valid two_renamed"
proof -
  have a: "iedsToRename two_ieds = []" by (simp add: two_ieds_eq)
  have a2: "iedsToRename both_IED2 = [''IED1'']" "\<not> allIedNamesValid both_IED2"
    by (simp_all add: both_IED2_def)
  have d: "distinct [''IED1'', ''IED2'', ''IED3'']" by simp
  have e: "edits [(0, ''A1''), (1, ''B2'')] (run (rendered [''IED1'', ''IED2'', ''IED3''])) = Inr two_renamed"
    using edits_two_renamed by (simp add: three_ieds_def)
  have n: "\<not> rename_disabled two_renamed"
    by (simp add: rename_disabled_def two_renamed_def)
  have 1: "rename_disabled two_ieds
      \<and> rename_click (\<lambda>selector. Inl SyntaxError) two_ieds = ([], Inr two_ieds)"
    using rename_enabled_iff[of two_ieds "\<lambda>selector. Inl SyntaxError"] a by simp
  have 2: "rename_disabled both_IED2
      \<and> rename_click (\<lambda>selector. Inl SyntaxError) both_IED2 = ([], Inr both_IED2)"
    using rename_enabled_iff[of both_IED2 "\<lambda>selector. Inl SyntaxError"] a2 by simp
  have 3: "pending two_renamed \<noteq> {} \<and> all_fields_valid two_renamed"
    using rename_enabled_iff[of two_renamed "\<lambda>selector. Inl SyntaxError"
        "[''IED1'', ''IED2'', ''IED3'']" "[(0, ''A1''), (1, ''B2'')]"]
      d e n by blast
  show ?thesis using a a2 e n 1 2 3 by simp
qed

text \<open>
  C9: an edit is idempotent. Typing \<open>v\<close> into field \<open>i\<close> succeeds, and typing the same
  \<open>v\<close> into it again leaves the whole state as it was after the first time: the messages,
  the \<open>changed\<close> marks, \<open>iedsToRename\<close> and \<open>allIedNamesValid\<close>.
\<close>

theorem input_event_idempotent:
  assumes i: "i < length (ied_fields s)"
  shows "\<exists>s'. input_event i v s = Inr s' \<and> input_event i v s' = Inr s'"
proof -
  let ?t = "set_field_value True i v s"
  let ?s' = "handled i ?t"
  have first: "input_event i v s = Inr ?s'" by (rule input_event_eq[OF i])
  have it: "i < length (ied_fields ?t)" using i by simp
  have "set_field_value True i v ?s' = ?s'"
    using i by (intro set_field_value_same) (simp_all add: handled_nth set_field_value_nth)
  moreover have "i < length (ied_fields ?s')" using i by simp
  ultimately have "input_event i v ?s' = Inr (handled i ?s')"
    by (simp add: input_event_eq)
  then have "input_event i v ?s' = Inr ?s'" by (simp add: handled_idem[OF it])
  with first show ?thesis by blast
qed

theorem input_event_idempotent_witness:
  "0 < length (ied_fields two_ieds) \<and>
   (\<exists>s'. input_event 0 ''IED2'' two_ieds = Inr s' \<and> input_event 0 ''IED2'' s' = Inr s'
      \<and> iedsToRename s' = [''IED1''] \<and> allIedNamesValid s' = False)"
proof -
  have h: "0 < length (ied_fields two_ieds)" by (simp add: two_ieds_eq)
  from input_event_idempotent[OF h, of "''IED2''"] obtain s' where
    "input_event 0 ''IED2'' two_ieds = Inr s'" "input_event 0 ''IED2'' s' = Inr s'"
    by blast
  then show ?thesis using h input_IED2 by (auto simp: both_IED2_def)
qed

text \<open>
  C10: the uniqueness rule compares names by equality of strings. Two fields whose values
  differ only in the case of their letters do not make each other duplicates: when no
  third field holds the value of either, neither value is flagged, and each field is
  valid as soon as it passes the other rules.
\<close>

theorem duplicate_check_case_sensitive:
  assumes "i < length (ied_fields s)" and "j < length (ied_fields s)"
    and "differ_only_in_case (field_value (ied_fields s ! i)) (field_value (ied_fields s ! j))"
    and "\<forall>k < length (ied_fields s). k \<noteq> i \<and> k \<noteq> j \<longrightarrow>
           field_value (ied_fields s ! k) \<noteq> field_value (ied_fields s ! i)
           \<and> field_value (ied_fields s ! k) \<noteq> field_value (ied_fields s ! j)"
  shows "\<not> duplicatedIedName s (field_value (ied_fields s ! i))
    \<and> \<not> duplicatedIedName s (field_value (ied_fields s ! j))
    \<and> validity_message s (ied_fields s ! i) \<noteq> msg_unique
    \<and> validity_message s (ied_fields s ! j) \<noteq> msg_unique
    \<and> (pattern_matches (field_value (ied_fields s ! i))
         \<and> length (field_value (ied_fields s ! i)) \<le> maxLength
       \<longrightarrow> customCheckValidity i s =
             (s\<lparr>ied_fields := (ied_fields s)[i := (ied_fields s ! i)\<lparr>custom_validity := []\<rparr>]\<rparr>,
              True))
    \<and> (pattern_matches (field_value (ied_fields s ! j))
         \<and> length (field_value (ied_fields s ! j)) \<le> maxLength
       \<longrightarrow> customCheckValidity j s =
             (s\<lparr>ied_fields := (ied_fields s)[j := (ied_fields s ! j)\<lparr>custom_validity := []\<rparr>]\<rparr>,
              True))"
proof -
  have ne: "field_value (ied_fields s ! j) \<noteq> field_value (ied_fields s ! i)"
    using assms(3) by (auto simp: differ_only_in_case_def)
  have ui: "\<forall>k < length (ied_fields s). k \<noteq> i \<longrightarrow>
           field_value (ied_fields s ! k) \<noteq> field_value (ied_fields s ! i)"
    using assms(4) ne by auto
  have uj: "\<forall>k < length (ied_fields s). k \<noteq> j \<longrightarrow>
           field_value (ied_fields s ! k) \<noteq> field_value (ied_fields s ! j)"
    using assms(4) ne by (metis (no_types, lifting))
  show ?thesis
    using unique_value_valid[OF assms(1) ui] unique_value_valid[OF assms(2) uj]
    by (intro conjI)
qed

theorem duplicate_check_case_sensitive_witness:
  "doc case_variants \<noteq> None
   \<and> map field_value (ied_fields case_variants) = [''IED1'', ''ied1'']
   \<and> differ_only_in_case ''IED1'' ''ied1''
   \<and> \<not> duplicatedIedName case_variants ''IED1''
   \<and> \<not> duplicatedIedName case_variants ''ied1''
   \<and> snd (customCheckValidity 0 case_variants) = True
   \<and> snd (customCheckValidity 1 case_variants) = True"
proof -
  have eq: "case_variants =
     \<lparr>doc = Some [''IED1'', ''ied1''],
      ied_fields =
        [\<lparr>field_value = ''IED1'', user_edited = False, data_old_name = ''IED1'',
           custom_validity = [], changed = False\<rparr>,
         \<lparr>field_value = ''ied1'', user_edited = False, data_old_name = ''ied1'',
           custom_validity = [], changed = False\<rparr>],
      iedsToRename = [], allIedNamesValid = True, dialog_open = True\<rparr>"
    by (simp add: case_variants_def run_def rendered_def renderIedItem_def reset_field_def)
  have 1: "doc case_variants \<noteq> None" by (simp add: eq)
  have 2: "0 < length (ied_fields case_variants)" "1 < length (ied_fields case_variants)"
    by (simp_all add: eq)
  have 3: "differ_only_in_case (field_value (ied_fields case_variants ! 0))
             (field_value (ied_fields case_variants ! 1))"
    by (simp add: eq differ_only_in_case_def canonicalize_def)
  have 4: "\<forall>k < length (ied_fields case_variants). k \<noteq> 0 \<and> k \<noteq> 1 \<longrightarrow>
           field_value (ied_fields case_variants ! k) \<noteq> field_value (ied_fields case_variants ! 0)
           \<and> field_value (ied_fields case_variants ! k) \<noteq> field_value (ied_fields case_variants ! 1)"
    by (auto simp: eq)
  have 5: "pattern_matches (field_value (ied_fields case_variants ! 0))
         \<and> length (field_value (ied_fields case_variants ! 0)) \<le> maxLength"
    "pattern_matches (field_value (ied_fields case_variants ! 1))
         \<and> length (field_value (ied_fields case_variants ! 1)) \<le> maxLength"
    by (simp_all add: eq flag_defs)
  show ?thesis
    using duplicate_check_case_sensitive[OF 2 3 4] 1 3 5 by (simp add: eq)
qed

section \<open>The claims about the search box\<close>

text \<open>
  C7, as the code has it: for two terms that stand for themselves (no \<open>*\<close>, no \<open>?\<close>, no
  quote), separated by white space, and a candidate string without a line terminator,
  the compiled expression accepts the candidate exactly when both terms occur in it as
  substrings, compared without regard to case; the order and the positions of the two
  occurrences play no part.
\<close>

theorem two_terms_both_occur:
  assumes "list_all literal_char t1" and "t1 \<noteq> []"
    and "list_all literal_char t2" and "t2 \<noteq> []"
    and "list_all is_space w0" and "list_all is_space w1" and "w1 \<noteq> []"
    and "list_all is_space w2"
    and "no_line_terminator s"
  shows "regexp_test (getSearchRegex (w0 @ t1 @ w1 @ t2 @ w2)) s
         = Some (sublist (map canonicalize t1) (map canonicalize s)
                 \<and> sublist (map canonicalize t2) (map canonicalize s))"
proof -
  have lt: "\<forall>c \<in> set s. \<not> line_terminator c"
    using assms(9) by (simp add: no_line_terminator_def list_all_iff)
  have "regexp_test (getSearchRegex (w0 @ t1 @ w1 @ t2 @ w2)) s
         = Some (search_from canonicalize
                   [Lookahead (DotStar # map atom_of t1), Lookahead (DotStar # map atom_of t2),
                    Plain DotStar] s)"
    using literal_is_term[OF assms(1)] assms(2) literal_is_term[OF assms(3)] assms(4-8)
    by (rule test_two_terms)
  then show ?thesis
    by (simp add: atom_of_literal[OF assms(1)] atom_of_literal[OF assms(3)]
        search_two_literals[OF lt])
qed

theorem two_terms_both_occur_witness:
  "regexp_test (getSearchRegex ''foo bar'') ''barXfoo'' = Some True
   \<and> sublist (map canonicalize ''foo'') (map canonicalize ''barXfoo'')
   \<and> sublist (map canonicalize ''bar'') (map canonicalize ''barXfoo'')
   \<and> regexp_test (getSearchRegex ''foo bar'') ''Foo baz'' = Some False"
proof -
  have l: "list_all literal_char ''foo''" "list_all literal_char ''bar''"
    by (simp_all add: literal_char_def is_term_char_def is_space_def is_quote_def)
  have w: "list_all is_space []" "list_all is_space '' ''" "'' '' \<noteq> []"
    by (simp_all add: is_space_def)
  have n: "no_line_terminator ''barXfoo''" "no_line_terminator ''Foo baz''"
    by (simp_all add: no_line_terminator_def line_terminator_def)
  have s: "sublist (map canonicalize ''foo'') (map canonicalize ''barXfoo'')"
    "sublist (map canonicalize ''bar'') (map canonicalize ''barXfoo'')"
    "\<not> sublist (map canonicalize ''bar'') (map canonicalize ''Foo baz'')"
    by code_simp+
  have "regexp_test (getSearchRegex ([] @ ''foo'' @ '' '' @ ''bar'' @ [])) ''barXfoo''
          = Some True"
    using two_terms_both_occur[OF l(1) _ l(2) _ w(1) w(2) w(3) w(1) n(1)] s by simp
  moreover have "regexp_test (getSearchRegex ([] @ ''foo'' @ '' '' @ ''bar'' @ [])) ''Foo baz''
          = Some False"
    using two_terms_both_occur[OF l(1) _ l(2) _ w(1) w(2) w(3) w(1) n(2)] s by simp
  ultimately show ?thesis using s by simp
qed

text \<open>
  C7 as stated fails, in two ways. A term with \<open>*\<close> or \<open>?\<close> is a pattern and not a
  substring, and the quotes of a term are dropped: the inputs \<open>a*c b\<close> and \<open>a?c b\<close> accept
  \<open>b abc\<close>, in which neither \<open>a*c\<close> nor \<open>a?c\<close> occurs, and the quoted \<open>a\<close> followed by
  \<open>b\<close> accepts \<open>b a\<close>, which holds no quote. And \<open>.\<close> stops at a line terminator: \<open>foo bar\<close>
  rejects the candidate that has \<open>bar\<close> on its first line and \<open>foo\<close> on its second,
  although both occur in it.
\<close>

theorem two_terms_counterexample:
  "regexp_test (getSearchRegex ''a*c b'') ''b abc'' = Some True
   \<and> \<not> sublist (map canonicalize ''a*c'') (map canonicalize ''b abc'')
   \<and> regexp_test (getSearchRegex ''a?c b'') ''b abc'' = Some True
   \<and> \<not> sublist (map canonicalize ''a?c'') (map canonicalize ''b abc'')
   \<and> regexp_test (getSearchRegex [dquote, CHR ''a'', dquote, CHR '' '', CHR ''b'']) ''b a'' = Some True
   \<and> \<not> sublist (map canonicalize [dquote, CHR ''a'', dquote]) (map canonicalize ''b a'')
   \<and> regexp_test (getSearchRegex ''foo bar'')
        [CHR ''b'', CHR ''a'', CHR ''r'', CHR 0x0A, CHR ''f'', CHR ''o'', CHR ''o''] = Some False
   \<and> sublist (map canonicalize ''foo'')
        (map canonicalize [CHR ''b'', CHR ''a'', CHR ''r'', CHR 0x0A, CHR ''f'', CHR ''o'', CHR ''o''])
   \<and> sublist (map canonicalize ''bar'')
        (map canonicalize [CHR ''b'', CHR ''a'', CHR ''r'', CHR 0x0A, CHR ''f'', CHR ''o'', CHR ''o''])"
  using examples_two_terms examples_glob_terms by simp

text \<open>
  C8, as the code has it: in every term of every search text, each \<open>*\<close> matches any run
  of zero or more characters other than line terminators and each \<open>?\<close> matches exactly
  one character other than a line terminator, the other characters matching themselves
  up to case. Whatever the text, its expression accepts a candidate exactly when, from
  some position of the candidate on, every term of the text is found that way. A word
  without white space and quotes is one term, two such words with white space between
  them are two terms, and a text between two quotes is one term, white space included.
  The expression of \<open>a*c\<close> accepts \<open>abc\<close>, \<open>ac\<close> and \<open>abXc\<close> and rejects \<open>ab\<close>.
\<close>

theorem every_glob_of_every_term:
  "regexp_test (getSearchRegex searchExpression) s
     = Some (accepts (search_terms searchExpression) s)
   \<and> (list_all is_term_char g \<and> g \<noteq> [] \<longrightarrow> search_terms g = [g])
   \<and> (list_all is_term_char g1 \<and> g1 \<noteq> [] \<and> list_all is_term_char g2 \<and> g2 \<noteq> []
        \<and> list_all is_space w \<and> w \<noteq> [] \<longrightarrow> search_terms (g1 @ w @ g2) = [g1, g2])
   \<and> (is_quote q \<and> is_quote q' \<and> list_all (\<lambda>c. \<not> is_quote c) t
        \<longrightarrow> search_terms (q # t @ [q']) = [t])
   \<and> regexp_test (getSearchRegex ''a*c'') ''abc'' = Some True
   \<and> regexp_test (getSearchRegex ''a*c'') ''ac'' = Some True
   \<and> regexp_test (getSearchRegex ''a*c'') ''abXc'' = Some True
   \<and> regexp_test (getSearchRegex ''a*c'') ''ab'' = Some False"
  using test_accepts[of searchExpression s] search_terms_word[of g]
    search_terms_two_words[of g1 g2 w] search_terms_quoted[of q q' t] examples_a_star_c(2-5)
  by (intro conjI impI) simp_all

text \<open>
  A term with two \<open>*\<close> and one with two \<open>?\<close>, two terms with one glob each, and a quoted
  term with a space and a \<open>*\<close>: what the expression does is what the terms accept.
\<close>

theorem every_glob_of_every_term_witness:
  "search_terms ''a*b*c'' = [''a*b*c'']
   \<and> regexp_test (getSearchRegex ''a*b*c'') ''a1b22c'' = Some True
   \<and> accepts [''a*b*c''] ''a1b22c''
   \<and> regexp_test (getSearchRegex ''a*b*c'') ''a1c2b'' = Some False
   \<and> \<not> accepts [''a*b*c''] ''a1c2b''
   \<and> search_terms ''a??c'' = [''a??c'']
   \<and> regexp_test (getSearchRegex ''a??c'') ''xAbbCy'' = Some True
   \<and> accepts [''a??c''] ''xAbbCy''
   \<and> regexp_test (getSearchRegex ''a??c'') ''abc'' = Some False
   \<and> \<not> accepts [''a??c''] ''abc''
   \<and> search_terms ''x*y b?d'' = [''x*y'', ''b?d'']
   \<and> regexp_test (getSearchRegex ''x*y b?d'') ''bcd x1y'' = Some True
   \<and> accepts [''x*y'', ''b?d''] ''bcd x1y''
   \<and> regexp_test (getSearchRegex ''x*y b?d'') ''bd x1y'' = Some False
   \<and> \<not> accepts [''x*y'', ''b?d''] ''bd x1y''
   \<and> search_terms (dquote # ''a *c'' @ [dquote]) = [''a *c'']
   \<and> regexp_test (getSearchRegex (dquote # ''a *c'' @ [dquote])) ''za bbc'' = Some True
   \<and> accepts [''a *c''] ''za bbc''
   \<and> regexp_test (getSearchRegex (dquote # ''a *c'' @ [dquote])) ''zabbc'' = Some False
   \<and> \<not> accepts [''a *c''] ''zabbc''"
proof -
  have tc: "list_all is_term_char ''a*b*c''" "list_all is_term_char ''a??c''"
    "list_all is_term_char ''x*y''" "list_all is_term_char ''b?d''"
    "list_all is_space '' ''" "is_quote dquote" "list_all (\<lambda>c. \<not> is_quote c) ''a *c''"
    by (simp_all add: is_term_char_def is_space_def is_quote_def)
  have t1: "search_terms ''a*b*c'' = [''a*b*c'']"
    using every_glob_of_every_term[of _ _ "''a*b*c''"] tc by simp
  have t2: "search_terms ''a??c'' = [''a??c'']"
    using every_glob_of_every_term[of _ _ "''a??c''"] tc by simp
  have t3: "search_terms (''x*y'' @ '' '' @ ''b?d'') = [''x*y'', ''b?d'']"
    using every_glob_of_every_term[of _ _ _ "''x*y''" "''b?d''" "'' ''"] tc by simp
  have t4: "search_terms (dquote # ''a *c'' @ [dquote]) = [''a *c'']"
    using every_glob_of_every_term[of _ _ _ _ _ _ dquote dquote "''a *c''"] tc by blast
  have e:
    "regexp_test (getSearchRegex ''a*b*c'') ''a1b22c'' = Some True"
    "regexp_test (getSearchRegex ''a*b*c'') ''a1c2b'' = Some False"
    "regexp_test (getSearchRegex ''a??c'') ''xAbbCy'' = Some True"
    "regexp_test (getSearchRegex ''a??c'') ''abc'' = Some False"
    "regexp_test (getSearchRegex ''x*y b?d'') ''bcd x1y'' = Some True"
    "regexp_test (getSearchRegex ''x*y b?d'') ''bd x1y'' = Some False"
    "regexp_test (getSearchRegex (dquote # ''a *c'' @ [dquote])) ''za bbc'' = Some True"
    "regexp_test (getSearchRegex (dquote # ''a *c'' @ [dquote])) ''zabbc'' = Some False"
    by code_simp+
  have a: "accepts (search_terms x) y = b" if "regexp_test (getSearchRegex x) y = Some b" for x y b
    using every_glob_of_every_term[of x y] that by simp
  have a1: "accepts [''a*b*c''] ''a1b22c''" "\<not> accepts [''a*b*c''] ''a1c2b''"
    using a[OF e(1)] a[OF e(2)] by (simp_all add: t1)
  have a2: "accepts [''a??c''] ''xAbbCy''" "\<not> accepts [''a??c''] ''abc''"
    using a[OF e(3)] a[OF e(4)] by (simp_all add: t2)
  have a3: "accepts [''x*y'', ''b?d''] ''bcd x1y''" "\<not> accepts [''x*y'', ''b?d''] ''bd x1y''"
    using a[OF e(5)] a[OF e(6)] t3 by simp_all
  have a4: "accepts [''a *c''] ''za bbc''" "\<not> accepts [''a *c''] ''zabbc''"
    using a[OF e(7)] a[OF e(8)] t4 by simp_all
  show ?thesis
    using t1 t2 t3 t4 e a1 a2 a3 a4 by simp
qed

text \<open>
  C8 as stated fails for a run that holds a line terminator, which is a character too:
  neither \<open>a*c\<close> nor \<open>a?c\<close> accepts \<open>a\<close>, line feed, \<open>c\<close>.
\<close>

theorem glob_counterexample:
  "regexp_test (getSearchRegex ''a*c'') [CHR ''a'', CHR 0x0A, CHR ''c''] = Some False
   \<and> regexp_test (getSearchRegex ''a?c'') [CHR ''a'', CHR 0x0A, CHR ''c''] = Some False"
  using examples_line_feed(1,2) by simp

end
